theory Spec2Isabelle
  imports Main
begin

section \<open>Exceptions\<close>

text \<open>
  Every exception the program can meet is a value. \<open>HttpError status\<close> is
  googleapiclient's \<open>HttpError\<close> with \<open>error.resp.status = status\<close>; \<open>KeyError k\<close>
  is a missing dictionary key \<open>k\<close>; \<open>ValueError\<close> is what \<open>datetime.strptime\<close>
  raises on text that does not denote a date; \<open>TypeError\<close> is \<open>strptime(None, ...)\<close>;
  \<open>OtherError\<close> stands for any further \<open>Exception\<close> an external call may raise.
\<close>

datatype error = KeyError string | ValueError | TypeError | HttpError nat | OtherError string

section \<open>Naive datetimes\<close>

record datetime =
  dt_year :: nat
  dt_month :: nat
  dt_day :: nat
  dt_hour :: nat
  dt_minute :: nat
  dt_second :: nat
  dt_microsecond :: nat

definition is_leap :: "nat \<Rightarrow> bool" where
  "is_leap y = (y mod 4 = 0 \<and> (y mod 100 \<noteq> 0 \<or> y mod 400 = 0))"

definition days_in_month :: "nat \<Rightarrow> nat \<Rightarrow> nat" where
  "days_in_month y m =
     (if m = 2 then (if is_leap y then 29 else 28)
      else if m = 4 \<or> m = 6 \<or> m = 9 \<or> m = 11 then 30 else 31)"

text \<open>
  The constructor \<open>datetime(year, month, day, hour, minute, second, microsecond)\<close>:
  it raises \<open>ValueError\<close> outside the ranges of the \<open>datetime\<close> module.
\<close>

definition datetime_new ::
  "nat \<Rightarrow> nat \<Rightarrow> nat \<Rightarrow> nat \<Rightarrow> nat \<Rightarrow> nat \<Rightarrow> nat \<Rightarrow> error + datetime" where
  "datetime_new y m d hh mm ss us =
     (if 1 \<le> y \<and> y \<le> 9999 \<and> 1 \<le> m \<and> m \<le> 12 \<and> 1 \<le> d \<and> d \<le> days_in_month y m
         \<and> hh \<le> 23 \<and> mm \<le> 59 \<and> ss \<le> 59 \<and> us \<le> 999999
      then Inr \<lparr>dt_year = y, dt_month = m, dt_day = d, dt_hour = hh, dt_minute = mm,
                dt_second = ss, dt_microsecond = us\<rparr>
      else Inl ValueError)"

text \<open>
  \<open>a < b\<close> on two naive datetimes compares the tuples
  \<open>(year, month, day, hour, minute, second, microsecond)\<close> lexicographically.
\<close>

fun tuple_lt :: "nat list \<Rightarrow> nat list \<Rightarrow> bool" where
  "tuple_lt [] [] = False"
| "tuple_lt [] (y # ys) = True"
| "tuple_lt (x # xs) [] = False"
| "tuple_lt (x # xs) (y # ys) = (x < y \<or> (x = y \<and> tuple_lt xs ys))"

definition dt_tuple :: "datetime \<Rightarrow> nat list" where
  "dt_tuple d = [dt_year d, dt_month d, dt_day d, dt_hour d, dt_minute d, dt_second d,
                 dt_microsecond d]"

definition datetime_lt :: "datetime \<Rightarrow> datetime \<Rightarrow> bool" where
  "datetime_lt a b = tuple_lt (dt_tuple a) (dt_tuple b)"

subsection \<open>Printing a datetime\<close>

definition digit_char :: "nat \<Rightarrow> char" where
  "digit_char n = ''0123456789'' ! (n mod 10)"

definition fmt2 :: "nat \<Rightarrow> string" where
  "fmt2 n = [digit_char (n div 10), digit_char n]"

definition fmt4 :: "nat \<Rightarrow> string" where
  "fmt4 n = [digit_char (n div 1000), digit_char (n div 100), digit_char (n div 10),
             digit_char n]"

definition fmt6 :: "nat \<Rightarrow> string" where
  "fmt6 n = [digit_char (n div 100000), digit_char (n div 10000), digit_char (n div 1000),
             digit_char (n div 100), digit_char (n div 10), digit_char n]"

text \<open>
  \<open>isoformat(sep)\<close> of a datetime whose fields are in range (\<open>%04d-%02d-%02d\<close>, the
  separator, \<open>%02d:%02d:%02d\<close>, then \<open>.%06d\<close> when the microsecond is not zero).
  \<open>str(d)\<close> is \<open>d.isoformat(sep=' ')\<close>.
\<close>

definition isoformat_sep :: "char \<Rightarrow> datetime \<Rightarrow> string" where
  "isoformat_sep sep d =
     fmt4 (dt_year d) @ ''-'' @ fmt2 (dt_month d) @ ''-'' @ fmt2 (dt_day d) @ [sep]
     @ fmt2 (dt_hour d) @ '':'' @ fmt2 (dt_minute d) @ '':'' @ fmt2 (dt_second d)
     @ (if dt_microsecond d = 0 then [] else ''.'' @ fmt6 (dt_microsecond d))"

definition isoformat :: "datetime \<Rightarrow> string" where
  "isoformat d = isoformat_sep (CHR ''T'') d"

definition str_datetime :: "datetime \<Rightarrow> string" where
  "str_datetime d = isoformat_sep (CHR '' '') d"

section \<open>\<open>datetime.strptime\<close> for the three formats of the program\<close>

text \<open>
  \<open>strptime\<close> turns the format into a regular expression, one group per directive,
  matches it at the start of the text with a backtracking matcher, and then refuses
  text that the match left over. A directive is modelled by the list of its matches at
  the start of the text, in the order in which the matcher tries the alternatives; each
  match is the matched text and the rest. Strings here are 8-bit, where \<open>\d\<close> is
  \<open>0\<close> to \<open>9\<close>.
\<close>

definition is_digit :: "char \<Rightarrow> bool" where
  "is_digit c = (48 \<le> (of_char c :: nat) \<and> (of_char c :: nat) \<le> 57)"

definition digit_val :: "char \<Rightarrow> nat" where
  "digit_val c = of_char c - 48"

definition in_range :: "char \<Rightarrow> char \<Rightarrow> char \<Rightarrow> bool" where
  "in_range lo hi c = ((of_char lo :: nat) \<le> of_char c \<and> (of_char c :: nat) \<le> of_char hi)"

definition one :: "(char \<Rightarrow> bool) \<Rightarrow> string \<Rightarrow> (string \<times> string) list" where
  "one p s = (case s of a # r \<Rightarrow> if p a then [([a], r)] else [] | [] \<Rightarrow> [])"

definition two ::
  "(char \<Rightarrow> bool) \<Rightarrow> (char \<Rightarrow> bool) \<Rightarrow> string \<Rightarrow> (string \<times> string) list" where
  "two p q s = (case s of a # b # r \<Rightarrow> if p a \<and> q b then [([a, b], r)] else [] | _ \<Rightarrow> [])"

text \<open>\<open>%Y\<close> is \<open>\d\d\d\d\<close>.\<close>

definition re_Y :: "string \<Rightarrow> (string \<times> string) list" where
  "re_Y s = (case s of a # b # c # d # r \<Rightarrow>
               if is_digit a \<and> is_digit b \<and> is_digit c \<and> is_digit d then [([a, b, c, d], r)]
               else []
             | _ \<Rightarrow> [])"

text \<open>\<open>%m\<close> is \<open>1[0-2]|0[1-9]|[1-9]\<close>.\<close>

definition re_m :: "string \<Rightarrow> (string \<times> string) list" where
  "re_m s = two (\<lambda>c. c = CHR ''1'') (in_range (CHR ''0'') (CHR ''2'')) s
          @ two (\<lambda>c. c = CHR ''0'') (in_range (CHR ''1'') (CHR ''9'')) s
          @ one (in_range (CHR ''1'') (CHR ''9'')) s"

text \<open>\<open>%d\<close> is \<open>3[0-1]|[1-2]\d|0[1-9]|[1-9]| [1-9]\<close>.\<close>

definition re_d :: "string \<Rightarrow> (string \<times> string) list" where
  "re_d s = two (\<lambda>c. c = CHR ''3'') (in_range (CHR ''0'') (CHR ''1'')) s
          @ two (in_range (CHR ''1'') (CHR ''2'')) is_digit s
          @ two (\<lambda>c. c = CHR ''0'') (in_range (CHR ''1'') (CHR ''9'')) s
          @ one (in_range (CHR ''1'') (CHR ''9'')) s
          @ two (\<lambda>c. c = CHR '' '') (in_range (CHR ''1'') (CHR ''9'')) s"

text \<open>\<open>%H\<close> is \<open>2[0-3]|[0-1]\d|\d\<close>.\<close>

definition re_H :: "string \<Rightarrow> (string \<times> string) list" where
  "re_H s = two (\<lambda>c. c = CHR ''2'') (in_range (CHR ''0'') (CHR ''3'')) s
          @ two (in_range (CHR ''0'') (CHR ''1'')) is_digit s
          @ one is_digit s"

text \<open>\<open>%M\<close> is \<open>[0-5]\d|\d\<close>.\<close>

definition re_M :: "string \<Rightarrow> (string \<times> string) list" where
  "re_M s = two (in_range (CHR ''0'') (CHR ''5'')) is_digit s @ one is_digit s"

text \<open>\<open>%S\<close> is \<open>6[0-1]|[0-5]\d|\d\<close>.\<close>

definition re_S :: "string \<Rightarrow> (string \<times> string) list" where
  "re_S s = two (\<lambda>c. c = CHR ''6'') (in_range (CHR ''0'') (CHR ''1'')) s
          @ two (in_range (CHR ''0'') (CHR ''5'')) is_digit s
          @ one is_digit s"

text \<open>
  A literal character of the format. The expression is compiled with \<open>IGNORECASE\<close>, so
  the \<open>T\<close> of a format also matches \<open>t\<close>: the argument lists the characters accepted.
\<close>

definition re_lit :: "string \<Rightarrow> string \<Rightarrow> (string \<times> string) list" where
  "re_lit cs s = one (\<lambda>c. c \<in> set cs) s"

text \<open>\<open>int(text)\<close> of a matched group: decimal digits, after an optional blank.\<close>

definition py_int :: "string \<Rightarrow> nat" where
  "py_int s = foldl (\<lambda>n c. if is_digit c then 10 * n + digit_val c else n) 0 s"

text \<open>The matches of \<open>%Y-%m-%d\<close>: the groups and the text left over.\<close>

definition regex_date :: "string \<Rightarrow> ((string \<times> string \<times> string) \<times> string) list" where
  "regex_date s =
     [((y, m, d), r5).
        (y, r1) \<leftarrow> re_Y s, (l1, r2) \<leftarrow> re_lit ''-'' r1, (m, r3) \<leftarrow> re_m r2,
        (l2, r4) \<leftarrow> re_lit ''-'' r3, (d, r5) \<leftarrow> re_d r4]"

text \<open>The matches of \<open>%H:%M:%S\<close>.\<close>

definition regex_time :: "string \<Rightarrow> ((string \<times> string \<times> string) \<times> string) list" where
  "regex_time s =
     [((hh, mm, ss), r5).
        (hh, r1) \<leftarrow> re_H s, (l1, r2) \<leftarrow> re_lit '':'' r1, (mm, r3) \<leftarrow> re_M r2,
        (l2, r4) \<leftarrow> re_lit '':'' r3, (ss, r5) \<leftarrow> re_S r4]"

text \<open>\<open>datetime.strptime(s, "%Y-%m-%d")\<close>.\<close>

definition strptime_date :: "string \<Rightarrow> error + datetime" where
  "strptime_date s =
     (case regex_date s of
        [] \<Rightarrow> Inl ValueError
      | ((y, m, d), rest) # _ \<Rightarrow>
          if rest \<noteq> [] then Inl ValueError
          else datetime_new (py_int y) (py_int m) (py_int d) 0 0 0 0)"

text \<open>\<open>datetime.strptime(s, "%Y-%m-%dT%H:%M:%S")\<close>.\<close>

definition strptime_datetime :: "string \<Rightarrow> error + datetime" where
  "strptime_datetime s =
     (case [((y, m, d, hh, mm, ss), r3).
              ((y, m, d), r1) \<leftarrow> regex_date s, (l, r2) \<leftarrow> re_lit ''Tt'' r1,
              ((hh, mm, ss), r3) \<leftarrow> regex_time r2] of
        [] \<Rightarrow> Inl ValueError
      | ((y, m, d, hh, mm, ss), rest) # _ \<Rightarrow>
          if rest \<noteq> [] then Inl ValueError
          else datetime_new (py_int y) (py_int m) (py_int d) (py_int hh) (py_int mm)
                 (py_int ss) 0)"

text \<open>\<open>datetime.strptime(s, "%Y%m%dT%H%M")\<close>.\<close>

definition strptime_until :: "string \<Rightarrow> error + datetime" where
  "strptime_until s =
     (case [((y, m, d, hh, mm), r6).
              (y, r1) \<leftarrow> re_Y s, (m, r2) \<leftarrow> re_m r1, (d, r3) \<leftarrow> re_d r2,
              (l, r4) \<leftarrow> re_lit ''Tt'' r3, (hh, r5) \<leftarrow> re_H r4, (mm, r6) \<leftarrow> re_M r5] of
        [] \<Rightarrow> Inl ValueError
      | ((y, m, d, hh, mm), rest) # _ \<Rightarrow>
          if rest \<noteq> [] then Inl ValueError
          else datetime_new (py_int y) (py_int m) (py_int d) (py_int hh) (py_int mm) 0 0)"

section \<open>Searching a recurrence rule\<close>

text \<open>\<open>"RRULE" in rec\<close>: the substring test of Python strings.\<close>

fun str_contains :: "string \<Rightarrow> string \<Rightarrow> bool" where
  "str_contains sub [] = (sub = [])"
| "str_contains sub (c # cs) = (take (length sub) (c # cs) = sub \<or> str_contains sub cs)"

text \<open>
  The group of \<open>UNTIL=(\d{8}T\d{6}Z)\<close>: eight digits, \<open>T\<close>, six digits, \<open>Z\<close>.
\<close>

definition until_form :: "string \<Rightarrow> bool" where
  "until_form g =
     (length g = 16 \<and> list_all is_digit (take 8 g) \<and> g ! 8 = CHR ''T''
      \<and> list_all is_digit (take 6 (drop 9 g)) \<and> g ! 15 = CHR ''Z'')"

text \<open>The expression matched at the very start of the text: its group, if it matches.\<close>

definition match_until :: "string \<Rightarrow> string option" where
  "match_until s =
     (if take 6 s = ''UNTIL='' \<and> until_form (take 16 (drop 6 s))
      then Some (take 16 (drop 6 s)) else None)"

text \<open>
  \<open>re.search(r"UNTIL=(\d{8}T\d{6}Z)", rec, re.M)\<close> followed by \<open>group(1)\<close>: the
  leftmost position where the expression matches (\<open>re.M\<close> changes nothing, the
  expression has no anchor).
\<close>

fun re_search_until :: "string \<Rightarrow> string option" where
  "re_search_until [] = None"
| "re_search_until (c # cs) =
     (case match_until (c # cs) of Some g \<Rightarrow> Some g | None \<Rightarrow> re_search_until cs)"

section \<open>Events\<close>

text \<open>
  An event is the dictionary the calendar service returns, with the keys the program
  reads, each one optional as in a dictionary: \<open>id\<close>, \<open>recurringEventId\<close>,
  \<open>recurrence\<close>, \<open>start\<close>, \<open>end\<close> and \<open>summary\<close>; \<open>start\<close> and \<open>end\<close> are
  dictionaries with the optional keys \<open>dateTime\<close> and \<open>date\<close>. Values have the types
  of the service's event resource.
\<close>

record time_point =
  tp_dateTime :: "string option"
  tp_date :: "string option"

record event =
  ev_id :: "string option"
  ev_recurringEventId :: "string option"
  ev_recurrence :: "string list option"
  ev_start :: "time_point option"
  ev_end :: "time_point option"
  ev_summary :: "string option"

datatype time_key = Start | End

definition key_name :: "time_key \<Rightarrow> string" where
  "key_name k = (case k of Start \<Rightarrow> ''start'' | End \<Rightarrow> ''end'')"

definition event_at :: "event \<Rightarrow> time_key \<Rightarrow> time_point option" where
  "event_at ev k = (case k of Start \<Rightarrow> ev_start ev | End \<Rightarrow> ev_end ev)"

text \<open>\<open>_is_recurrent\<close>.\<close>

definition is_recurrent :: "event \<Rightarrow> bool" where
  "is_recurrent ev = (ev_recurringEventId ev \<noteq> None)"

text \<open>
  \<open>_get_datetime(event, key)\<close>: \<open>event[key]\<close> raises \<open>KeyError\<close> when the key is
  missing; with a \<open>dateTime\<close> its first 19 characters are parsed; otherwise
  \<open>get("date")\<close> is parsed, and is \<open>None\<close> when that key is missing too.
\<close>

definition get_datetime :: "event \<Rightarrow> time_key \<Rightarrow> error + datetime" where
  "get_datetime ev k =
     (case event_at ev k of
        None \<Rightarrow> Inl (KeyError (key_name k))
      | Some tp \<Rightarrow>
          (case tp_dateTime tp of
             Some s \<Rightarrow> strptime_datetime (take 19 s)
           | None \<Rightarrow>
               (case tp_date tp of None \<Rightarrow> Inl TypeError | Some s \<Rightarrow> strptime_date s)))"

text \<open>
  The loop of \<open>_event_is_passed\<close> over \<open>event["recurrence"]\<close>: the first rule whose
  UNTIL lies before \<open>time_max\<close> returns \<open>True\<close>, a rule whose UNTIL does not parse
  raises, and the end of the list returns \<open>False\<close>.
\<close>

fun recurrence_passed :: "string list \<Rightarrow> datetime \<Rightarrow> error + bool" where
  "recurrence_passed [] tmax = Inr False"
| "recurrence_passed (rec # recs) tmax =
     (if str_contains ''RRULE'' rec then
        (case re_search_until rec of
           Some g \<Rightarrow>
             (case strptime_until (take 13 g) of
                Inl e \<Rightarrow> Inl e
              | Inr until \<Rightarrow>
                  if datetime_lt until tmax then Inr True else recurrence_passed recs tmax)
         | None \<Rightarrow> recurrence_passed recs tmax)
      else recurrence_passed recs tmax)"

text \<open>\<open>_event_is_passed(event)\<close>, with \<open>self.time_max\<close> as an argument.\<close>

definition event_is_passed :: "event \<Rightarrow> datetime \<Rightarrow> error + bool" where
  "event_is_passed ev tmax =
     (case ev_recurrence ev of
        Some recs \<Rightarrow> recurrence_passed recs tmax
      | None \<Rightarrow>
          (case get_datetime ev End of
             Inl e \<Rightarrow> Inl e
           | Inr d \<Rightarrow> Inr (datetime_lt d tmax)))"

section \<open>The calendar service and the state of a run\<close>

text \<open>
  The three requests the program sends. A request is recorded with the arguments the
  program passes: \<open>list\<close> with its keyword arguments, \<open>get\<close> with \<open>calendarId\<close>
  and \<open>eventId\<close>, \<open>delete\<close> with \<open>calendarId\<close>, \<open>eventId\<close> and \<open>sendUpdates\<close>.
\<close>

record list_request =
  lr_calendarId :: string
  lr_timeMin :: string
  lr_timeMax :: string
  lr_maxResults :: nat
  lr_singleEvents :: bool
  lr_pageToken :: "string option"
  lr_orderBy :: string

datatype api_call =
  ListCall list_request
| GetCall string string
| DeleteCall string string string

text \<open>
  The answer to a \<open>list\<close> request: its \<open>items\<close>, and the \<open>nextPageToken\<close> that
  \<open>events.get("nextPageToken")\<close> reads, absent on the last page.
\<close>

record page =
  pg_items :: "event list"
  pg_nextPageToken :: "string option"

text \<open>
  The service is outside the program: it answers a request as a function of the
  requests it has received before (so a deletion may change every later answer), and
  an answer is either a value or the exception that \<open>execute()\<close> raises.
\<close>

record service =
  svc_list :: "api_call list \<Rightarrow> list_request \<Rightarrow> error + page"
  svc_get :: "api_call list \<Rightarrow> string \<Rightarrow> string \<Rightarrow> error + event"
  svc_delete :: "api_call list \<Rightarrow> string \<Rightarrow> string \<Rightarrow> string \<Rightarrow> error option"

text \<open>
  The fields of \<open>EventDeletion\<close> that never change after \<open>__init__\<close>.
\<close>

record config =
  time_min :: datetime
  time_max :: datetime
  confirm_delete :: bool

text \<open>What \<open>print\<close> was called with: an exception, or a formatted line.\<close>

datatype printed = PrintError error | PrintLine string

text \<open>
  What a run changes: the set \<open>self.deleted_events\<close>, the standard output, and the
  requests sent to the service so far.
\<close>

record state =
  deleted_events :: "string set"
  stdout :: "printed list"
  calls :: "api_call list"

text \<open>\<open>__init__\<close> starts with \<open>self.deleted_events = set()\<close>.\<close>

definition init_state :: state where
  "init_state = \<lparr>deleted_events = {}, stdout = [], calls = []\<rparr>"

text \<open>
  \<open>len(ed.deleted_events)\<close>, the number that the final message reports.
\<close>

definition final_count :: "state \<Rightarrow> nat" where
  "final_count st = card (deleted_events st)"

section \<open>Deleting one event\<close>

text \<open>\<open>str.strip()\<close>: the characters below 256 for which \<open>isspace()\<close> holds.\<close>

definition is_space :: "char \<Rightarrow> bool" where
  "is_space c = ((of_char c :: nat) \<in> {9, 10, 11, 12, 13, 28, 29, 30, 31, 32, 133, 160})"

definition strip :: "string \<Rightarrow> string" where
  "strip s = rev (dropWhile is_space (rev (dropWhile is_space s)))"

text \<open>
  The line \<open>f"{result} - {event_date} - {recurrent_tag}{summary}"\<close>, the tag spelled
  as the program spells it.
\<close>

definition recurrent_tag :: "event \<Rightarrow> string" where
  "recurrent_tag ev = (if ev_recurrence ev \<noteq> None then ''[Recurent event] - '' else [])"

definition summary_of :: "event \<Rightarrow> string" where
  "summary_of ev = strip (case ev_summary ev of None \<Rightarrow> [] | Some s \<Rightarrow> s)"

definition status_line :: "string \<Rightarrow> datetime \<Rightarrow> event \<Rightarrow> string" where
  "status_line result event_date ev =
     result @ '' - '' @ str_datetime event_date @ '' - '' @ recurrent_tag ev @ summary_of ev"

text \<open>
  The \<open>try\<close> statement of \<open>_delete_event\<close> either returns from the function (the
  identifier is in the set) or leaves \<open>result\<close> bound. The request is sent in
  confirmed mode only (the pause before it changes nothing here), and the identifier is
  added to the set on the line after the request, which an exception skips.
\<close>

datatype attempt = Returned | Result string

definition delete_try :: "service \<Rightarrow> config \<Rightarrow> state \<Rightarrow> event \<Rightarrow> attempt \<times> state" where
  "delete_try svc cfg st ev =
     (case ev_id ev of
        None \<Rightarrow>
          (Result ''FAILED '', st\<lparr>stdout := stdout st @ [PrintError (KeyError ''id'')]\<rparr>)
      | Some event_id \<Rightarrow>
          if event_id \<in> deleted_events st then (Returned, st)
          else if confirm_delete cfg then
            (let st1 = st\<lparr>calls := calls st @ [DeleteCall ''primary'' event_id ''none'']\<rparr>
             in case svc_delete svc (calls st) ''primary'' event_id ''none'' of
                  None \<Rightarrow>
                    (Result ''DELETED'',
                     st1\<lparr>deleted_events := insert event_id (deleted_events st1)\<rparr>)
                | Some (HttpError status) \<Rightarrow>
                    if status = 410 then (Result ''ALREADY DELETED'', st1)
                    else (Result ''FAILED '',
                          st1\<lparr>stdout := stdout st1 @ [PrintError (HttpError status)]\<rparr>)
                | Some err \<Rightarrow>
                    (Result ''FAILED '', st1\<lparr>stdout := stdout st1 @ [PrintError err]\<rparr>))
          else
            (Result ''DELETED'', st\<lparr>deleted_events := insert event_id (deleted_events st)\<rparr>))"

text \<open>
  \<open>_delete_event(event)\<close>: after the \<open>try\<close> statement the start of the event is
  parsed, outside any handler, and the status line is printed.
\<close>

definition delete_event ::
  "service \<Rightarrow> config \<Rightarrow> state \<Rightarrow> event \<Rightarrow> (error + unit) \<times> state" where
  "delete_event svc cfg st ev =
     (case delete_try svc cfg st ev of
        (Returned, st') \<Rightarrow> (Inr (), st')
      | (Result result, st') \<Rightarrow>
          (case get_datetime ev Start of
             Inl e \<Rightarrow> (Inl e, st')
           | Inr event_date \<Rightarrow>
               (Inr (),
                st'\<lparr>stdout := stdout st' @ [PrintLine (status_line result event_date ev)]\<rparr>)))"

section \<open>The sweep\<close>

text \<open>\<open>if self._event_is_passed(e): self._delete_event(e)\<close>.\<close>

definition delete_if_passed ::
  "service \<Rightarrow> config \<Rightarrow> state \<Rightarrow> event \<Rightarrow> (error + unit) \<times> state" where
  "delete_if_passed svc cfg st e =
     (case event_is_passed e (time_max cfg) of
        Inl err \<Rightarrow> (Inl err, st)
      | Inr passed \<Rightarrow> if passed then delete_event svc cfg st e else (Inr (), st))"

text \<open>
  The body of \<open>if self._is_recurrent(event):\<close>, which fetches the parent series and
  deletes it when it is passed.
\<close>

definition process_parent ::
  "service \<Rightarrow> config \<Rightarrow> state \<Rightarrow> event \<Rightarrow> (error + unit) \<times> state" where
  "process_parent svc cfg st ev =
     (if is_recurrent ev then
        (case ev_recurringEventId ev of
           None \<Rightarrow> (Inl (KeyError ''recurringEventId''), st)
         | Some rid \<Rightarrow>
             (let st1 = st\<lparr>calls := calls st @ [GetCall ''primary'' rid]\<rparr>
              in case svc_get svc (calls st) ''primary'' rid of
                   Inl err \<Rightarrow> (Inl err, st1)
                 | Inr rec_event \<Rightarrow> delete_if_passed svc cfg st1 rec_event))
      else (Inr (), st))"

text \<open>The body of \<open>for event in events["items"]:\<close>.\<close>

definition process_event ::
  "service \<Rightarrow> config \<Rightarrow> state \<Rightarrow> event \<Rightarrow> (error + unit) \<times> state" where
  "process_event svc cfg st ev =
     (case process_parent svc cfg st ev of
        (Inl err, st') \<Rightarrow> (Inl err, st')
      | (Inr u, st') \<Rightarrow> delete_if_passed svc cfg st' ev)"

fun process_items ::
  "service \<Rightarrow> config \<Rightarrow> state \<Rightarrow> event list \<Rightarrow> (error + unit) \<times> state" where
  "process_items svc cfg st [] = (Inr (), st)"
| "process_items svc cfg st (ev # evs) =
     (case process_event svc cfg st ev of
        (Inl err, st') \<Rightarrow> (Inl err, st')
      | (Inr u, st') \<Rightarrow> process_items svc cfg st' evs)"

text \<open>The keyword arguments of the \<open>list\<close> request.\<close>

definition list_request_of :: "config \<Rightarrow> string option \<Rightarrow> list_request" where
  "list_request_of cfg page_token =
     \<lparr>lr_calendarId = ''primary'',
      lr_timeMin = isoformat (time_min cfg) @ ''Z'',
      lr_timeMax = isoformat (time_max cfg) @ ''Z'',
      lr_maxResults = 100,
      lr_singleEvents = True,
      lr_pageToken = page_token,
      lr_orderBy = ''startTime''\<rparr>"

text \<open>
  One round of \<open>while True:\<close> up to \<open>page_token = events.get("nextPageToken")\<close>:
  the new token, or the exception that left the loop.
\<close>

definition page_body ::
  "service \<Rightarrow> config \<Rightarrow> state \<Rightarrow> string option \<Rightarrow> (error + string option) \<times> state" where
  "page_body svc cfg st page_token =
     (let st1 = st\<lparr>calls := calls st @ [ListCall (list_request_of cfg page_token)]\<rparr>
      in case svc_list svc (calls st) (list_request_of cfg page_token) of
           Inl err \<Rightarrow> (Inl err, st1)
         | Inr events \<Rightarrow>
             (case process_items svc cfg st1 (pg_items events) of
                (Inl err, st2) \<Rightarrow> (Inl err, st2)
              | (Inr u, st2) \<Rightarrow> (Inr (pg_nextPageToken events), st2)))"

text \<open>\<open>not page_token\<close> holds for \<open>None\<close> and for the empty string.\<close>

definition token_falsy :: "string option \<Rightarrow> bool" where
  "token_falsy t = (t = None \<or> t = Some [])"

text \<open>
  The loop \<open>while True:\<close> has no bound of its own, so the model counts rounds: with
  \<open>n\<close> rounds allowed the result is \<open>None\<close> when the loop is still running after them.
\<close>

fun page_loop ::
  "nat \<Rightarrow> service \<Rightarrow> config \<Rightarrow> state \<Rightarrow> string option \<Rightarrow> ((error + unit) \<times> state) option" where
  "page_loop 0 svc cfg st page_token = None"
| "page_loop (Suc n) svc cfg st page_token =
     (case page_body svc cfg st page_token of
        (Inl err, st') \<Rightarrow> Some (Inl err, st')
      | (Inr tok, st') \<Rightarrow>
          if token_falsy tok then Some (Inr (), st') else page_loop n svc cfg st' tok)"

text \<open>\<open>delete_events()\<close> starts the loop with \<open>page_token = None\<close>.\<close>

definition delete_events ::
  "nat \<Rightarrow> service \<Rightarrow> config \<Rightarrow> state \<Rightarrow> ((error + unit) \<times> state) option" where
  "delete_events n svc cfg st = page_loop n svc cfg st None"

section \<open>The classification as the specification words it\<close>

text \<open>
  The UNTIL instant that one rule contributes: nothing when the rule has no \<open>RRULE\<close>
  or no UNTIL of the form \<open>YYYYMMDDTHHMMSSZ\<close>; otherwise the first 13 characters of the
  leftmost such UNTIL, parsed with \<open>%Y%m%dT%H%M\<close>, which is an instant or a failure.
\<close>

definition rule_until :: "string \<Rightarrow> (error + datetime) option" where
  "rule_until rec =
     (if str_contains ''RRULE'' rec then
        (case re_search_until rec of
           None \<Rightarrow> None
         | Some g \<Rightarrow> Some (strptime_until (take 13 g)))
      else None)"

text \<open>
  A rule whose UNTIL instant is strictly before \<open>time_max\<close>, and a rule whose UNTIL
  does not denote an instant.
\<close>

definition rule_before :: "string \<Rightarrow> datetime \<Rightarrow> bool" where
  "rule_before rec tmax =
     (case rule_until rec of Some (Inr d) \<Rightarrow> datetime_lt d tmax | _ \<Rightarrow> False)"

definition rule_raises :: "string \<Rightarrow> bool" where
  "rule_raises rec = (case rule_until rec of Some (Inl e) \<Rightarrow> True | _ \<Rightarrow> False)"

text \<open>
  "Some recurrence rule has an UNTIL instant strictly before \<open>time_max\<close>", with no
  regard to the order of the rules.
\<close>

definition claimed_passed :: "string list \<Rightarrow> datetime \<Rightarrow> bool" where
  "claimed_passed recs tmax = list_ex (\<lambda>r. rule_before r tmax) recs"

text \<open>
  The end instant of an event: the first 19 characters of the \<open>dateTime\<close> of its
  \<open>end\<close> parsed with \<open>%Y-%m-%dT%H:%M:%S\<close>, or its all-day \<open>date\<close> parsed with
  \<open>%Y-%m-%d\<close>; there is none when the text does not parse or the key is missing.
\<close>

definition end_instant :: "event \<Rightarrow> datetime option" where
  "end_instant ev =
     (case ev_end ev of
        None \<Rightarrow> None
      | Some tp \<Rightarrow>
          (case tp_dateTime tp of
             Some s \<Rightarrow> (case strptime_datetime (take 19 s) of Inl e \<Rightarrow> None | Inr d \<Rightarrow> Some d)
           | None \<Rightarrow>
               (case tp_date tp of
                  None \<Rightarrow> None
                | Some s \<Rightarrow> (case strptime_date s of Inl e \<Rightarrow> None | Inr d \<Rightarrow> Some d))))"

section \<open>Observing a deletion attempt\<close>

text \<open>
  The \<open>delete\<close> request for an identifier, and the answer the service gives to it
  in a state of the run.
\<close>

definition sent_delete :: "string \<Rightarrow> api_call" where
  "sent_delete i = DeleteCall ''primary'' i ''none''"

definition answer_delete :: "service \<Rightarrow> state \<Rightarrow> string \<Rightarrow> error option" where
  "answer_delete svc st i = svc_delete svc (calls st) ''primary'' i ''none''"

text \<open>
  The value of \<open>result\<close> after the \<open>try\<close> statement for an identifier that is not
  in the set, and what the handlers print before the status line.
\<close>

definition attempt_result :: "service \<Rightarrow> config \<Rightarrow> state \<Rightarrow> string \<Rightarrow> string" where
  "attempt_result svc cfg st i =
     (if confirm_delete cfg then
        (case answer_delete svc st i of
           None \<Rightarrow> ''DELETED''
         | Some err \<Rightarrow> if err = HttpError 410 then ''ALREADY DELETED'' else ''FAILED '')
      else ''DELETED'')"

definition attempt_log :: "service \<Rightarrow> config \<Rightarrow> state \<Rightarrow> string \<Rightarrow> printed list" where
  "attempt_log svc cfg st i =
     (if confirm_delete cfg then
        (case answer_delete svc st i of
           None \<Rightarrow> []
         | Some err \<Rightarrow> if err = HttpError 410 then [] else [PrintError err])
      else [])"

text \<open>
  A printed status line, as opposed to a printed exception.
\<close>

definition is_status :: "printed \<Rightarrow> bool" where
  "is_status p = (case p of PrintLine l \<Rightarrow> True | PrintError e \<Rightarrow> False)"

section \<open>Observing a run\<close>

text \<open>
  A \<open>delete\<close> request among the requests sent.
\<close>

definition is_delete_call :: "api_call \<Rightarrow> bool" where
  "is_delete_call c = (case c of DeleteCall a b d \<Rightarrow> True | _ \<Rightarrow> False)"

text \<open>
  The result of a round of the loop without the page token it read.
\<close>

definition without_token :: "(error + string option) \<times> state \<Rightarrow> (error + unit) \<times> state" where
  "without_token rs = (case rs of (Inl e, s) \<Rightarrow> (Inl e, s) | (Inr t, s) \<Rightarrow> (Inr (), s))"

text \<open>
  A status line whose result is DELETED, their number in the output, and the statement
  that the size of the set is that number.
\<close>

definition is_deleted_line :: "printed \<Rightarrow> bool" where
  "is_deleted_line p = (case p of PrintLine l \<Rightarrow> take 10 l = ''DELETED - '' | PrintError e \<Rightarrow> False)"

definition deleted_lines :: "printed list \<Rightarrow> nat" where
  "deleted_lines out = length (filter is_deleted_line out)"

definition count_agrees :: "state \<Rightarrow> bool" where
  "count_agrees st =
     (finite (deleted_events st) \<and> card (deleted_events st) = deleted_lines (stdout st))"

text \<open>
  A \<open>list\<close> request for the primary calendar, between \<open>time_min\<close> and
  \<open>time_max\<close> written as UTC with a \<open>Z\<close>, for at most 100 events, with recurring
  events expanded into instances and ordered by start time; the page token is free.
\<close>

definition standard_request :: "config \<Rightarrow> list_request \<Rightarrow> bool" where
  "standard_request cfg q =
     (lr_calendarId q = ''primary''
      \<and> lr_timeMin q = isoformat (time_min cfg) @ ''Z''
      \<and> lr_timeMax q = isoformat (time_max cfg) @ ''Z''
      \<and> lr_maxResults q = 100 \<and> lr_singleEvents q \<and> lr_orderBy q = ''startTime'')"

text \<open>
  The \<open>list\<close> requests among the requests sent, the requests sent between two
  states of a run, and the statement that the run only added requests, with every
  \<open>list\<close> request among them a standard one.
\<close>

definition list_requests :: "api_call list \<Rightarrow> list_request list" where
  "list_requests cs = concat (map (\<lambda>c. case c of ListCall q \<Rightarrow> [q] | _ \<Rightarrow> []) cs)"





section \<open>Comparing a simulation with a confirmed run\<close>

text \<open>
  A configuration with the mode set to simulation, and to confirmed.
\<close>

definition simulated :: "config \<Rightarrow> config" where
  "simulated cfg = cfg\<lparr>confirm_delete := False\<rparr>"

definition confirmed :: "config \<Rightarrow> config" where
  "confirmed cfg = cfg\<lparr>confirm_delete := True\<rparr>"

text \<open>
  A service that answers every \<open>delete\<close> request with success, and a service whose
  answers to \<open>list\<close> and \<open>get\<close> requests do not depend on the \<open>delete\<close> requests
  it has received.
\<close>

definition always_deletes :: "service \<Rightarrow> bool" where
  "always_deletes svc = (\<forall>h a i u. svc_delete svc h a i u = None)"

definition other_calls :: "api_call list \<Rightarrow> api_call list" where
  "other_calls h = filter (\<lambda>c. \<not> is_delete_call c) h"

definition blind_to_deletes :: "service \<Rightarrow> bool" where
  "blind_to_deletes svc =
     ((\<forall>h q. svc_list svc h q = svc_list svc (other_calls h) q)
      \<and> (\<forall>h a i. svc_get svc h a i = svc_get svc (other_calls h) a i))"

text \<open>
  Two states with the same set and the same output, whose requests differ by the
  \<open>delete\<close> requests only; two results that are equal with such states; and two
  runs that are both still running, or have both ended with the same result, the same
  output, the same set and the same final count.
\<close>

definition same_but_deletes :: "state \<Rightarrow> state \<Rightarrow> bool" where
  "same_but_deletes s c =
     (deleted_events s = deleted_events c \<and> stdout s = stdout c
      \<and> calls s = other_calls (calls c))"

definition same_result :: "'a \<times> state \<Rightarrow> 'a \<times> state \<Rightarrow> bool" where
  "same_result rs rc = (fst rs = fst rc \<and> same_but_deletes (snd rs) (snd rc))"

definition same_outcome ::
  "((error + unit) \<times> state) option \<Rightarrow> ((error + unit) \<times> state) option \<Rightarrow> bool" where
  "same_outcome a b =
     (case (a, b) of
        (None, None) \<Rightarrow> True
      | (Some rs, Some rc) \<Rightarrow>
          fst rs = fst rc \<and> stdout (snd rs) = stdout (snd rc)
          \<and> deleted_events (snd rs) = deleted_events (snd rc)
          \<and> final_count (snd rs) = final_count (snd rc)
      | _ \<Rightarrow> False)"

section \<open>Dates as text\<close>

text \<open>
  A datetime that the constructor accepts.
\<close>

definition valid_datetime :: "datetime \<Rightarrow> bool" where
  "valid_datetime d =
     (1 \<le> dt_year d \<and> dt_year d \<le> 9999 \<and> 1 \<le> dt_month d \<and> dt_month d \<le> 12
      \<and> 1 \<le> dt_day d \<and> dt_day d \<le> days_in_month (dt_year d) (dt_month d)
      \<and> dt_hour d \<le> 23 \<and> dt_minute d \<le> 59 \<and> dt_second d \<le> 59
      \<and> dt_microsecond d \<le> 999999)"

text \<open>
  The date of a datetime as \<open>YYYY-MM-DD\<close>, the text of an UNTIL value in the form
  \<open>YYYYMMDDTHHMMSSZ\<close>, and a weekly rule that ends at it.
\<close>

definition isoformat_date :: "datetime \<Rightarrow> string" where
  "isoformat_date d = fmt4 (dt_year d) @ ''-'' @ fmt2 (dt_month d) @ ''-'' @ fmt2 (dt_day d)"

definition until_text :: "datetime \<Rightarrow> string" where
  "until_text d =
     fmt4 (dt_year d) @ fmt2 (dt_month d) @ fmt2 (dt_day d) @ ''T''
     @ fmt2 (dt_hour d) @ fmt2 (dt_minute d) @ fmt2 (dt_second d) @ ''Z''"

definition weekly_until :: "datetime \<Rightarrow> string" where
  "weekly_until d = ''RRULE:FREQ=WEEKLY;UNTIL='' @ until_text d"

text \<open>
  The first match of a directive.
\<close>

definition first_is :: "'a list \<Rightarrow> 'a \<Rightarrow> bool" where
  "first_is xs x = (case xs of [] \<Rightarrow> False | y # ys \<Rightarrow> y = x)"

section \<open>The deletions the service carried out\<close>

text \<open>
  The identifiers of the \<open>delete\<close> requests that the service answered with success,
  in the order of the requests \<open>cs\<close> sent after the requests \<open>h\<close>; those of a state
  of the run; and the statement that no identifier occurs twice among them and that
  each is in the set.
\<close>

fun deleted_from :: "service \<Rightarrow> api_call list \<Rightarrow> api_call list \<Rightarrow> string list" where
  "deleted_from svc h [] = []"
| "deleted_from svc h (c # cs) =
     (case c of
        DeleteCall a i u \<Rightarrow> if svc_delete svc h a i u = None then [i] else []
      | _ \<Rightarrow> [])
     @ deleted_from svc (h @ [c]) cs"

definition really_deleted :: "service \<Rightarrow> state \<Rightarrow> string list" where
  "really_deleted svc st = deleted_from svc [] (calls st)"

definition deleted_once :: "service \<Rightarrow> state \<Rightarrow> bool" where
  "deleted_once svc st =
     (distinct (really_deleted svc st) \<and> set (really_deleted svc st) \<subseteq> deleted_events st)"

section \<open>The page tokens of a run\<close>





section \<open>An UNTIL value of another form\<close>

text \<open>
  The text of a rule after its first \<open>UNTIL=\<close>, and the UNTIL value of the rule: that
  text up to the next \<open>;\<close>, or to the end of the rule.
\<close>

fun after_until :: "string \<Rightarrow> string option" where
  "after_until [] = None"
| "after_until (c # cs) =
     (if take 6 (c # cs) = ''UNTIL='' then Some (drop 6 (c # cs)) else after_until cs)"

definition until_value :: "string \<Rightarrow> string option" where
  "until_value rec =
     (case after_until rec of
        None \<Rightarrow> None
      | Some rest \<Rightarrow> Some (takeWhile (\<lambda>c. c \<noteq> CHR '';'') rest))"

text \<open>
  "The rule carries an UNTIL value not matching the exact form \<open>YYYYMMDDTHHMMSSZ\<close>".
\<close>

definition other_form :: "string \<Rightarrow> bool" where
  "other_form rec = (case until_value rec of None \<Rightarrow> False | Some v \<Rightarrow> \<not> until_form v)"

text \<open>
  A rule with an \<open>UNTIL=\<close> whose next 16 characters are not of the form, and with no
  second \<open>UNTIL=\<close> after it.
\<close>

definition unmatched_until :: "string \<Rightarrow> bool" where
  "unmatched_until rec =
     (case after_until rec of
        None \<Rightarrow> False
      | Some rest \<Rightarrow> \<not> until_form (take 16 rest) \<and> \<not> str_contains ''UNTIL='' rest)"

section \<open>Example data\<close>

text \<open>
  A datetime without microseconds, the start or end of a timed and of an all-day event,
  a recurring series with the given rules, and a single event.
\<close>

definition mk_datetime :: "nat \<Rightarrow> nat \<Rightarrow> nat \<Rightarrow> nat \<Rightarrow> nat \<Rightarrow> nat \<Rightarrow> datetime" where
  "mk_datetime y m d hh mm ss =
     \<lparr>dt_year = y, dt_month = m, dt_day = d, dt_hour = hh, dt_minute = mm, dt_second = ss,
      dt_microsecond = 0\<rparr>"

definition at_time :: "string \<Rightarrow> time_point" where
  "at_time s = \<lparr>tp_dateTime = Some s, tp_date = None\<rparr>"

definition on_day :: "string \<Rightarrow> time_point" where
  "on_day s = \<lparr>tp_dateTime = None, tp_date = Some s\<rparr>"

definition series_event :: "string list \<Rightarrow> event" where
  "series_event recs =
     \<lparr>ev_id = Some ''R'', ev_recurringEventId = None, ev_recurrence = Some recs,
      ev_start = Some \<lparr>tp_dateTime = Some ''2017-01-06T08:00:00Z'', tp_date = None\<rparr>,
      ev_end = Some \<lparr>tp_dateTime = Some ''2017-01-06T08:30:00Z'', tp_date = None\<rparr>,
      ev_summary = Some ''Weekly sync''\<rparr>"

definition single_event :: "string \<Rightarrow> time_point \<Rightarrow> time_point \<Rightarrow> event" where
  "single_event i s e =
     \<lparr>ev_id = Some i, ev_recurringEventId = None, ev_recurrence = None,
      ev_start = Some s, ev_end = Some e, ev_summary = Some '' Dentist ''\<rparr>"

text \<open>
  A service whose answers do not depend on the earlier requests, the configuration of a
  run that ends at 2017-03-18, in confirmed or in simulation mode, and the services
  that answer every deletion with success, with 410 and with 500.
\<close>

definition fixed_service ::
  "(list_request \<Rightarrow> error + page) \<Rightarrow> (string \<Rightarrow> error + event) \<Rightarrow> (string \<Rightarrow> error option) \<Rightarrow> service" where
  "fixed_service l g d =
     \<lparr>svc_list = (\<lambda>h r. l r), svc_get = (\<lambda>h c i. g i), svc_delete = (\<lambda>h c i u. d i)\<rparr>"

definition example_config :: "bool \<Rightarrow> config" where
  "example_config confirm =
     \<lparr>time_min = mk_datetime 2000 1 1 0 0 0, time_max = mk_datetime 2017 3 18 0 0 0,
      confirm_delete = confirm\<rparr>"

definition ok_service :: service where
  "ok_service = fixed_service (\<lambda>r. Inl (HttpError 404)) (\<lambda>i. Inl (HttpError 404)) (\<lambda>i. None)"

definition gone_service :: service where
  "gone_service = fixed_service (\<lambda>r. Inl (HttpError 404)) (\<lambda>i. Inl (HttpError 404))
                    (\<lambda>i. Some (HttpError 410))"

definition failing_service :: service where
  "failing_service = fixed_service (\<lambda>r. Inl (HttpError 404)) (\<lambda>i. Inl (HttpError 404))
                       (\<lambda>i. Some (HttpError 500))"

text \<open>
  A single event on 2017-03-17 from 08:00 to 08:30, and the same event without its
  \<open>start\<close>.
\<close>

definition e1 :: event where
  "e1 = single_event ''E1'' (at_time ''2017-03-17T08:00:00+01:00'')
          (at_time ''2017-03-17T08:30:00+01:00'')"

definition e_no_start :: event where
  "e_no_start = e1\<lparr>ev_start := None\<rparr>"

text \<open>
  The run of the specification's end-to-end example: the first page holds the single
  event and the token \<open>T\<close>, the second page holds an instance of the series \<open>R\<close>,
  whose UNTIL is before \<open>time_max\<close>; deletions are answered by the argument. In the
  last service the parent series cannot be fetched.
\<close>

definition e2 :: event where
  "e2 = \<lparr>ev_id = Some ''E2'', ev_recurringEventId = Some ''R'', ev_recurrence = None,
          ev_start = Some (at_time ''2017-03-17T08:00:00+01:00''),
          ev_end = Some (at_time ''2017-03-17T08:30:00+01:00''),
          ev_summary = Some ''Weekly sync''\<rparr>"

definition series_r :: event where
  "series_r = series_event [''RRULE:FREQ=WEEKLY;UNTIL=20170317T083000Z'']"

definition two_page_service :: "(string \<Rightarrow> error option) \<Rightarrow> service" where
  "two_page_service d =
     fixed_service
       (\<lambda>r. if lr_pageToken r = None then Inr \<lparr>pg_items = [e1], pg_nextPageToken = Some ''T''\<rparr>
            else if lr_pageToken r = Some ''T'' then Inr \<lparr>pg_items = [e2], pg_nextPageToken = None\<rparr>
            else Inl (HttpError 400))
       (\<lambda>i. if i = ''R'' then Inr series_r else Inl (HttpError 404))
       d"


text \<open>
  A service with one page that holds the single event.
\<close>

definition single_page_service :: "(string \<Rightarrow> error option) \<Rightarrow> service" where
  "single_page_service d =
     fixed_service (\<lambda>r. Inr \<lparr>pg_items = [e1], pg_nextPageToken = None\<rparr>)
       (\<lambda>i. Inl (HttpError 404)) d"

section \<open>Facts about the search and the parsers\<close>

text \<open>
  The substring test and the search agree with their descriptions: a text contains
  \<open>sub\<close> when it can be cut around it, and the search finds nothing exactly when the
  text has no \<open>UNTIL=\<close> followed by a value of the form.
\<close>

lemma str_contains_iff: "str_contains sub s \<longleftrightarrow> (\<exists>pre post. s = pre @ sub @ post)"
proof (induction s)
  case Nil
  then show ?case by auto
next
  case (Cons c cs)
  have "(\<exists>pre post. c # cs = pre @ sub @ post) \<longleftrightarrow>
        (\<exists>post. c # cs = sub @ post) \<or> (\<exists>pre post. cs = pre @ sub @ post)"
    (is "?A \<longleftrightarrow> ?B \<or> ?C")
  proof
    assume ?A
    then obtain pre post where h: "c # cs = pre @ sub @ post" by blast
    show "?B \<or> ?C"
    proof (cases pre)
      case Nil
      with h show ?thesis by auto
    next
      case (Cons p pre')
      with h have "cs = pre' @ sub @ post" by simp
      then show ?thesis by blast
    qed
  next
    assume "?B \<or> ?C"
    then show ?A
    proof
      assume ?B
      then obtain post where "c # cs = [] @ sub @ post" by auto
      then show ?A by blast
    next
      assume ?C
      then obtain pre post where "cs = pre @ sub @ post" by blast
      then have "c # cs = (c # pre) @ sub @ post" by simp
      then show ?A by blast
    qed
  qed
  moreover have "take (length sub) (c # cs) = sub \<longleftrightarrow> (\<exists>post. c # cs = sub @ post)"
  proof
    assume "take (length sub) (c # cs) = sub"
    then have "c # cs = sub @ drop (length sub) (c # cs)"
      by (metis append_take_drop_id)
    then show "\<exists>post. c # cs = sub @ post" by blast
  next
    assume "\<exists>post. c # cs = sub @ post"
    then obtain post where "c # cs = sub @ post" by blast
    then show "take (length sub) (c # cs) = sub" by simp
  qed
  ultimately show ?case using Cons.IH by simp
qed

lemma match_until_Some_iff:
  "match_until s = Some g \<longleftrightarrow> (\<exists>post. s = ''UNTIL='' @ g @ post \<and> until_form g)"
proof
  assume "match_until s = Some g"
  then have h: "take 6 s = ''UNTIL=''" "until_form g" "g = take 16 (drop 6 s)"
    by (auto simp: match_until_def split: if_splits)
  have "s = take 6 s @ take 16 (drop 6 s) @ drop 16 (drop 6 s)"
    by (metis append_take_drop_id)
  with h show "\<exists>post. s = ''UNTIL='' @ g @ post \<and> until_form g"
    by metis
next
  assume "\<exists>post. s = ''UNTIL='' @ g @ post \<and> until_form g"
  then obtain post where h: "s = ''UNTIL='' @ g @ post" "until_form g"
    by blast
  then have "length g = 16" by (simp add: until_form_def)
  with h show "match_until s = Some g"
    by (simp add: match_until_def)
qed

lemma match_until_None_iff:
  "match_until s = None \<longleftrightarrow> \<not> (\<exists>g post. s = ''UNTIL='' @ g @ post \<and> until_form g)"
proof -
  have "match_until s \<noteq> None \<longleftrightarrow> (\<exists>g. match_until s = Some g)" by auto
  then show ?thesis by (metis match_until_Some_iff)
qed

lemma re_search_until_None_iff:
  "re_search_until s = None \<longleftrightarrow>
     \<not> (\<exists>pre g post. s = pre @ ''UNTIL='' @ g @ post \<and> until_form g)"
proof (induction s)
  case Nil
  then show ?case by simp
next
  case (Cons c cs)
  have "(\<exists>pre g post. c # cs = pre @ ''UNTIL='' @ g @ post \<and> until_form g) \<longleftrightarrow>
        (\<exists>g post. c # cs = ''UNTIL='' @ g @ post \<and> until_form g)
        \<or> (\<exists>pre g post. cs = pre @ ''UNTIL='' @ g @ post \<and> until_form g)"
    (is "?A \<longleftrightarrow> ?B \<or> ?C")
  proof
    assume ?A
    then obtain pre g post where h: "c # cs = pre @ ''UNTIL='' @ g @ post" "until_form g"
      by blast
    show "?B \<or> ?C"
    proof (cases pre)
      case Nil
      with h show ?thesis by auto
    next
      case (Cons p pre')
      with h have "cs = pre' @ ''UNTIL='' @ g @ post" by simp
      with h(2) show ?thesis by blast
    qed
  next
    assume "?B \<or> ?C"
    then show ?A
    proof
      assume ?B
      then obtain g post where "c # cs = [] @ ''UNTIL='' @ g @ post" "until_form g" by auto
      then show ?A by blast
    next
      assume ?C
      then obtain pre g post where "cs = pre @ ''UNTIL='' @ g @ post" "until_form g" by blast
      then have "c # cs = (c # pre) @ ''UNTIL='' @ g @ post" "until_form g" by simp_all
      then show ?A by blast
    qed
  qed
  moreover have "re_search_until (c # cs) = None \<longleftrightarrow>
                 match_until (c # cs) = None \<and> re_search_until cs = None"
    by (simp split: option.splits)
  ultimately show ?case
    using Cons.IH match_until_None_iff [of "c # cs"] by blast
qed

lemma re_search_until_Some:
  "re_search_until s = Some g \<Longrightarrow> \<exists>pre post. s = pre @ ''UNTIL='' @ g @ post \<and> until_form g"
proof (induction s)
  case Nil
  then show ?case by simp
next
  case (Cons c cs)
  show ?case
  proof (cases "match_until (c # cs)")
    case None
    with Cons.prems have "re_search_until cs = Some g" by simp
    then obtain pre post where "cs = pre @ ''UNTIL='' @ g @ post" "until_form g"
      using Cons.IH by blast
    then have "c # cs = (c # pre) @ ''UNTIL='' @ g @ post" "until_form g" by simp_all
    then show ?thesis by blast
  next
    case (Some g')
    with Cons.prems have "g' = g" by simp
    with Some obtain post where "c # cs = [] @ ''UNTIL='' @ g @ post" "until_form g"
      using match_until_Some_iff [of "c # cs" g] by auto
    then show ?thesis by blast
  qed
qed

text \<open>
  Evaluating a parser on a text goes in two steps, first the matches of the regular
  expression, then the numbers and the range checks.
\<close>

lemmas regex_defs = re_Y_def re_m_def re_d_def re_H_def re_M_def re_S_def re_lit_def
  one_def two_def is_digit_def in_range_def

lemmas value_defs = py_int_def is_digit_def digit_val_def datetime_new_def days_in_month_def
  is_leap_def

lemma strptime_until_20170317: "strptime_until ''20170317T0830'' = Inr (mk_datetime 2017 3 17 8 30 0)"
  unfolding strptime_until_def by (simp add: regex_defs) (simp add: value_defs mk_datetime_def)

lemma strptime_until_20170230: "strptime_until ''20170230T0830'' = Inl ValueError"
  unfolding strptime_until_def by (simp add: regex_defs) (simp add: value_defs)

lemma strptime_datetime_20170317:
  "strptime_datetime ''2017-03-17T08:30:00'' = Inr (mk_datetime 2017 3 17 8 30 0)"
  unfolding strptime_datetime_def regex_date_def regex_time_def
  by (simp add: regex_defs) (simp add: value_defs mk_datetime_def)

lemma strptime_date_20170317:
  "strptime_date ''2017-03-17'' = Inr (mk_datetime 2017 3 17 0 0 0)"
  unfolding strptime_date_def regex_date_def
  by (simp add: regex_defs) (simp add: value_defs mk_datetime_def)

lemma search_20170317:
  "re_search_until ''RRULE:FREQ=WEEKLY;UNTIL=20170317T083000Z'' = Some ''20170317T083000Z''"
  by (simp add: match_until_def until_form_def is_digit_def)

lemma search_20170230:
  "re_search_until ''RRULE:FREQ=WEEKLY;UNTIL=20170230T083000Z'' = Some ''20170230T083000Z''"
  by (simp add: match_until_def until_form_def is_digit_def)

lemma search_date_only:
  "re_search_until ''RRULE:FREQ=WEEKLY;UNTIL=20170317'' = None"
  by (simp add: match_until_def until_form_def is_digit_def)

lemma rule_until_20170317:
  "rule_until ''RRULE:FREQ=WEEKLY;UNTIL=20170317T083000Z'' = Some (Inr (mk_datetime 2017 3 17 8 30 0))"
  by (simp add: rule_until_def search_20170317 strptime_until_20170317 del: re_search_until.simps)

lemma rule_until_20170230:
  "rule_until ''RRULE:FREQ=WEEKLY;UNTIL=20170230T083000Z'' = Some (Inl ValueError)"
  by (simp add: rule_until_def search_20170230 strptime_until_20170230 del: re_search_until.simps)

lemma lt_a: "datetime_lt (mk_datetime 2017 3 17 8 30 0) (mk_datetime 2017 3 18 0 0 0)"
  by (simp add: datetime_lt_def dt_tuple_def mk_datetime_def)

lemma lt_b: "\<not> datetime_lt (mk_datetime 2017 3 17 8 30 0) (mk_datetime 2017 3 1 0 0 0)"
  by (simp add: datetime_lt_def dt_tuple_def mk_datetime_def)

lemma lt_c: "datetime_lt (mk_datetime 2017 3 17 0 0 0) (mk_datetime 2017 3 18 0 0 0)"
  by (simp add: datetime_lt_def dt_tuple_def mk_datetime_def)

section \<open>The scan of the recurrence rules\<close>

lemma recurrence_passed_Cons:
  "recurrence_passed (r # recs) tmax =
     (case rule_until r of
        None \<Rightarrow> recurrence_passed recs tmax
      | Some (Inl e) \<Rightarrow> Inl e
      | Some (Inr d) \<Rightarrow> if datetime_lt d tmax then Inr True else recurrence_passed recs tmax)"
  by (simp add: rule_until_def split: option.splits sum.splits)

lemma recurrence_passed_True_iff:
  "recurrence_passed recs tmax = Inr True \<longleftrightarrow>
     (\<exists>pre r post. recs = pre @ r # post \<and> rule_before r tmax \<and> (\<forall>p\<in>set pre. \<not> rule_raises p))"
proof (induction recs)
  case Nil
  then show ?case by simp
next
  case (Cons a recs)
  show ?case
  proof (cases "rule_until a")
    case None
    then have na: "\<not> rule_before a tmax" "\<not> rule_raises a"
      by (simp_all add: rule_before_def rule_raises_def)
    have "recurrence_passed (a # recs) tmax = recurrence_passed recs tmax"
      using None by (simp add: recurrence_passed_Cons del: recurrence_passed.simps)
    moreover have "(\<exists>pre r post. a # recs = pre @ r # post \<and> rule_before r tmax \<and> (\<forall>p\<in>set pre. \<not> rule_raises p))
      \<longleftrightarrow> (\<exists>pre r post. recs = pre @ r # post \<and> rule_before r tmax \<and> (\<forall>p\<in>set pre. \<not> rule_raises p))"
      (is "?L \<longleftrightarrow> ?R")
    proof
      assume ?L
      then obtain pre r post where h: "a # recs = pre @ r # post" "rule_before r tmax" "\<forall>p\<in>set pre. \<not> rule_raises p"
        by blast
      show ?R
      proof (cases pre)
        case Nil
        with h na show ?thesis by simp
      next
        case (Cons b pre')
        with h have "recs = pre' @ r # post" "\<forall>p\<in>set pre'. \<not> rule_raises p" by simp_all
        with h(2) show ?thesis by blast
      qed
    next
      assume ?R
      then obtain pre r post where h: "recs = pre @ r # post" "rule_before r tmax" "\<forall>p\<in>set pre. \<not> rule_raises p"
        by blast
      then have "a # recs = (a # pre) @ r # post" "\<forall>p\<in>set (a # pre). \<not> rule_raises p"
        using na by simp_all
      with h(2) show ?L by blast
    qed
    ultimately show ?thesis using Cons.IH by simp
  next
    case (Some res)
    show ?thesis
    proof (cases res)
      case (Inl e)
      with Some have ra: "rule_raises a" "\<not> rule_before a tmax"
        by (simp_all add: rule_before_def rule_raises_def)
      have l: "recurrence_passed (a # recs) tmax = Inl e"
        using Some Inl by (simp add: recurrence_passed_Cons del: recurrence_passed.simps)
      have "\<not> (\<exists>pre r post. a # recs = pre @ r # post \<and> rule_before r tmax \<and> (\<forall>p\<in>set pre. \<not> rule_raises p))"
      proof
        assume "\<exists>pre r post. a # recs = pre @ r # post \<and> rule_before r tmax \<and> (\<forall>p\<in>set pre. \<not> rule_raises p)"
        then obtain pre r post where h: "a # recs = pre @ r # post" "rule_before r tmax" "\<forall>p\<in>set pre. \<not> rule_raises p"
          by blast
        show False
        proof (cases pre)
          case Nil
          with h ra show ?thesis by simp
        next
          case (Cons b pre')
          with h ra show ?thesis by simp
        qed
      qed
      with l show ?thesis by simp
    next
      case (Inr d)
      show ?thesis
      proof (cases "datetime_lt d tmax")
        case True
        with Some Inr have "rule_before a tmax" by (simp add: rule_before_def)
        then have "a # recs = [] @ a # recs \<and> rule_before a tmax \<and> (\<forall>p\<in>set []. \<not> rule_raises p)"
          by simp
        then have "\<exists>pre r post. a # recs = pre @ r # post \<and> rule_before r tmax \<and> (\<forall>p\<in>set pre. \<not> rule_raises p)"
          by blast
        moreover have "recurrence_passed (a # recs) tmax = Inr True"
          using Some Inr True by (simp add: recurrence_passed_Cons del: recurrence_passed.simps)
        ultimately show ?thesis by simp
      next
        case False
        with Some Inr have na: "\<not> rule_before a tmax" "\<not> rule_raises a"
          by (simp_all add: rule_before_def rule_raises_def)
        have "recurrence_passed (a # recs) tmax = recurrence_passed recs tmax"
          using Some Inr False by (simp add: recurrence_passed_Cons del: recurrence_passed.simps)
        moreover have "(\<exists>pre r post. a # recs = pre @ r # post \<and> rule_before r tmax \<and> (\<forall>p\<in>set pre. \<not> rule_raises p))
          \<longleftrightarrow> (\<exists>pre r post. recs = pre @ r # post \<and> rule_before r tmax \<and> (\<forall>p\<in>set pre. \<not> rule_raises p))"
          (is "?L \<longleftrightarrow> ?R")
        proof
          assume ?L
          then obtain pre r post where h: "a # recs = pre @ r # post" "rule_before r tmax" "\<forall>p\<in>set pre. \<not> rule_raises p"
            by blast
          show ?R
          proof (cases pre)
            case Nil
            with h na show ?thesis by simp
          next
            case (Cons b pre')
            with h have "recs = pre' @ r # post" "\<forall>p\<in>set pre'. \<not> rule_raises p" by simp_all
            with h(2) show ?thesis by blast
          qed
        next
          assume ?R
          then obtain pre r post where h: "recs = pre @ r # post" "rule_before r tmax" "\<forall>p\<in>set pre. \<not> rule_raises p"
            by blast
          then have "a # recs = (a # pre) @ r # post" "\<forall>p\<in>set (a # pre). \<not> rule_raises p"
            using na by simp_all
          with h(2) show ?L by blast
        qed
        ultimately show ?thesis using Cons.IH by simp
      qed
    qed
  qed
qed

lemma recurrence_passed_total:
  "\<forall>r\<in>set recs. \<not> rule_raises r \<Longrightarrow>
     recurrence_passed recs tmax = Inr (list_ex (\<lambda>r. rule_before r tmax) recs)"
proof (induction recs)
  case Nil
  then show ?case by simp
next
  case (Cons a recs)
  then have ih: "recurrence_passed recs tmax = Inr (list_ex (\<lambda>r. rule_before r tmax) recs)"
    and na: "\<not> rule_raises a"
    by simp_all
  show ?case
    using na ih
    by (simp add: recurrence_passed_Cons rule_before_def rule_raises_def
        del: recurrence_passed.simps split: option.splits sum.splits)
qed

lemma recurrence_passed_no_match:
  "\<forall>r\<in>set recs. re_search_until r = None \<Longrightarrow> recurrence_passed recs tmax = Inr False"
  by (induction recs) simp_all

section \<open>The cases of a deletion attempt\<close>

lemma delete_try_no_id:
  "ev_id ev = None \<Longrightarrow>
   delete_try svc cfg st ev =
     (Result ''FAILED '', st\<lparr>stdout := stdout st @ [PrintError (KeyError ''id'')]\<rparr>)"
  by (simp add: delete_try_def)

lemma delete_try_skip:
  "ev_id ev = Some i \<Longrightarrow> i \<in> deleted_events st \<Longrightarrow> delete_try svc cfg st ev = (Returned, st)"
  by (simp add: delete_try_def)

lemma delete_try_simulation:
  "ev_id ev = Some i \<Longrightarrow> i \<notin> deleted_events st \<Longrightarrow> \<not> confirm_delete cfg \<Longrightarrow>
   delete_try svc cfg st ev =
     (Result ''DELETED'', st\<lparr>deleted_events := insert i (deleted_events st)\<rparr>)"
  by (simp add: delete_try_def)

lemma delete_try_deleted:
  "ev_id ev = Some i \<Longrightarrow> i \<notin> deleted_events st \<Longrightarrow> confirm_delete cfg \<Longrightarrow>
   answer_delete svc st i = None \<Longrightarrow>
   delete_try svc cfg st ev =
     (Result ''DELETED'',
      st\<lparr>calls := calls st @ [sent_delete i], deleted_events := insert i (deleted_events st)\<rparr>)"
  by (simp add: delete_try_def answer_delete_def sent_delete_def)

lemma delete_try_gone:
  "ev_id ev = Some i \<Longrightarrow> i \<notin> deleted_events st \<Longrightarrow> confirm_delete cfg \<Longrightarrow>
   answer_delete svc st i = Some (HttpError 410) \<Longrightarrow>
   delete_try svc cfg st ev =
     (Result ''ALREADY DELETED'', st\<lparr>calls := calls st @ [sent_delete i]\<rparr>)"
  by (simp add: delete_try_def answer_delete_def sent_delete_def)

lemma delete_try_failed:
  "ev_id ev = Some i \<Longrightarrow> i \<notin> deleted_events st \<Longrightarrow> confirm_delete cfg \<Longrightarrow>
   answer_delete svc st i = Some err \<Longrightarrow> err \<noteq> HttpError 410 \<Longrightarrow>
   delete_try svc cfg st ev =
     (Result ''FAILED '',
      st\<lparr>calls := calls st @ [sent_delete i], stdout := stdout st @ [PrintError err]\<rparr>)"
  by (cases err) (simp_all add: delete_try_def answer_delete_def sent_delete_def)

lemma delete_event_skip:
  "ev_id ev = Some i \<Longrightarrow> i \<in> deleted_events st \<Longrightarrow> delete_event svc cfg st ev = (Inr (), st)"
  by (simp add: delete_event_def delete_try_skip)

lemma delete_event_result:
  "delete_try svc cfg st ev = (Result r, st') \<Longrightarrow> get_datetime ev Start = Inr d \<Longrightarrow>
   delete_event svc cfg st ev =
     (Inr (), st'\<lparr>stdout := stdout st' @ [PrintLine (status_line r d ev)]\<rparr>)"
  by (simp add: delete_event_def)

lemma delete_event_raises:
  "delete_try svc cfg st ev = (Result r, st') \<Longrightarrow> get_datetime ev Start = Inl e \<Longrightarrow>
   delete_event svc cfg st ev = (Inl e, st')"
  by (simp add: delete_event_def)

lemma delete_event_state:
  "delete_try svc cfg st ev = (a, st') \<Longrightarrow>
   deleted_events (snd (delete_event svc cfg st ev)) = deleted_events st'
   \<and> calls (snd (delete_event svc cfg st ev)) = calls st'"
  by (cases a; cases "get_datetime ev Start") (simp_all add: delete_event_def)

lemma delete_event_attempt:
  assumes "ev_id ev = Some i" and "i \<notin> deleted_events st" and "get_datetime ev Start = Inr d"
  shows "delete_event svc cfg st ev =
           (Inr (),
            st\<lparr>calls := calls st @ (if confirm_delete cfg then [sent_delete i] else []),
               deleted_events :=
                 (if attempt_result svc cfg st i = ''DELETED'' then insert i (deleted_events st)
                  else deleted_events st),
               stdout := stdout st @ attempt_log svc cfg st i
                         @ [PrintLine (status_line (attempt_result svc cfg st i) d ev)]\<rparr>)"
proof (cases "confirm_delete cfg")
  case False
  from delete_event_result [OF delete_try_simulation [OF assms(1,2) False] assms(3)] False
  show ?thesis by (simp add: attempt_result_def attempt_log_def)
next
  case True
  show ?thesis
  proof (cases "answer_delete svc st i")
    case None
    from delete_event_result [OF delete_try_deleted [OF assms(1,2) True None] assms(3)] True None
    show ?thesis by (simp add: attempt_result_def attempt_log_def)
  next
    case (Some err)
    show ?thesis
    proof (cases "err = HttpError 410")
      case g: True
      with Some have a: "answer_delete svc st i = Some (HttpError 410)" by simp
      from delete_event_result [OF delete_try_gone [OF assms(1,2) True a] assms(3)] True a
      show ?thesis by (simp add: attempt_result_def attempt_log_def)
    next
      case f: False
      from delete_event_result [OF delete_try_failed [OF assms(1,2) True Some f] assms(3)]
        True Some f
      show ?thesis by (simp add: attempt_result_def attempt_log_def)
    qed
  qed
qed

text \<open>
  The example data, evaluated.
\<close>

lemma strptime_datetime_0800:
  "strptime_datetime ''2017-03-17T08:00:00'' = Inr (mk_datetime 2017 3 17 8 0 0)"
  unfolding strptime_datetime_def regex_date_def regex_time_def
  by (simp add: regex_defs) (simp add: value_defs mk_datetime_def)

lemma e1_fields:
  "ev_id e1 = Some ''E1''" "ev_recurringEventId e1 = None" "ev_recurrence e1 = None"
  "get_datetime e1 Start = Inr (mk_datetime 2017 3 17 8 0 0)"
  "get_datetime e1 End = Inr (mk_datetime 2017 3 17 8 30 0)"
  by (simp_all add: e1_def single_event_def at_time_def get_datetime_def event_at_def
      strptime_datetime_0800 strptime_datetime_20170317)

lemma e_no_start_fields:
  "ev_id e_no_start = Some ''E1''" "get_datetime e_no_start Start = Inl (KeyError ''start'')"
  by (simp_all add: e_no_start_def e1_def single_event_def get_datetime_def event_at_def
      key_name_def)

lemma example_config_simps:
  "confirm_delete (example_config b) = b"
  "time_max (example_config b) = mk_datetime 2017 3 18 0 0 0"
  "time_min (example_config b) = mk_datetime 2000 1 1 0 0 0"
  by (simp_all add: example_config_def)

lemma init_state_simps:
  "deleted_events init_state = {}" "stdout init_state = []" "calls init_state = []"
  by (simp_all add: init_state_def)

lemma answer_delete_fixed: "answer_delete (fixed_service l g d) st i = d i"
  by (simp add: answer_delete_def fixed_service_def)

lemma status_line_e1:
  "status_line ''DELETED'' (mk_datetime 2017 3 17 8 0 0) e1 =
     ''DELETED - 2017-03-17 08:00:00 - Dentist''"
  by (simp add: status_line_def str_datetime_def isoformat_sep_def fmt2_def fmt4_def
      digit_char_def mk_datetime_def recurrent_tag_def summary_of_def strip_def is_space_def
      e1_def single_event_def)

section \<open>Lifting a property of the steps to the sweep\<close>

text \<open>
  A relation between the state before and the result after that holds for doing
  nothing, for raising without a step, for each deletion, for each \<open>get\<close> and
  \<open>list\<close> request, and that composes along normal returns, holds for every part of
  the sweep.
\<close>

lemma sweep_delete_if_passed:
  assumes refl: "\<And>s. P s (Inr (), s)"
    and raise: "\<And>s e. P s (Inl e, s)"
    and del: "\<And>s e. P s (delete_event svc cfg s e)"
  shows "P st (delete_if_passed svc cfg st ev)"
proof (cases "event_is_passed ev (time_max cfg)")
  case (Inl e)
  then show ?thesis by (simp add: delete_if_passed_def raise)
next
  case (Inr b)
  then show ?thesis by (cases b) (simp_all add: delete_if_passed_def refl del)
qed

lemma sweep_process_parent:
  assumes refl: "\<And>s. P s (Inr (), s)"
    and raise: "\<And>s e. P s (Inl e, s)"
    and trans: "\<And>a b rc. P a (Inr (), b) \<Longrightarrow> P b rc \<Longrightarrow> P a rc"
    and get: "\<And>s rid r. P s (r, s\<lparr>calls := calls s @ [GetCall ''primary'' rid]\<rparr>)"
    and del: "\<And>s e. P s (delete_event svc cfg s e)"
  shows "P st (process_parent svc cfg st ev)"
proof (cases "ev_recurringEventId ev")
  case None
  then show ?thesis by (simp add: process_parent_def is_recurrent_def refl)
next
  case (Some rid)
  let ?st1 = "st\<lparr>calls := calls st @ [GetCall ''primary'' rid]\<rparr>"
  show ?thesis
  proof (cases "svc_get svc (calls st) ''primary'' rid")
    case (Inl e)
    with Some show ?thesis
      by (simp add: process_parent_def is_recurrent_def get)
  next
    case (Inr parent)
    have "P ?st1 (delete_if_passed svc cfg ?st1 parent)"
      by (rule sweep_delete_if_passed [where P = P, OF refl raise del])
    with get [of st "Inr ()" rid] have "P st (delete_if_passed svc cfg ?st1 parent)"
      by (rule trans)
    with Some Inr show ?thesis
      by (simp add: process_parent_def is_recurrent_def)
  qed
qed

lemma sweep_process_event:
  assumes refl: "\<And>s. P s (Inr (), s)"
    and raise: "\<And>s e. P s (Inl e, s)"
    and trans: "\<And>a b rc. P a (Inr (), b) \<Longrightarrow> P b rc \<Longrightarrow> P a rc"
    and get: "\<And>s rid r. P s (r, s\<lparr>calls := calls s @ [GetCall ''primary'' rid]\<rparr>)"
    and del: "\<And>s e. P s (delete_event svc cfg s e)"
  shows "P st (process_event svc cfg st ev)"
proof -
  obtain r st' where p: "process_parent svc cfg st ev = (r, st')" by (cases "process_parent svc cfg st ev")
  have pp: "P st (r, st')"
    using sweep_process_parent [where P = P and st = st and ev = ev, OF refl raise trans get del] p by simp
  show ?thesis
  proof (cases r)
    case (Inl e)
    with p pp show ?thesis by (simp add: process_event_def)
  next
    case (Inr u)
    have "P st' (delete_if_passed svc cfg st' ev)"
      by (rule sweep_delete_if_passed [where P = P, OF refl raise del])
    with pp Inr have "P st (delete_if_passed svc cfg st' ev)"
      using trans [of st st'] by simp
    with p Inr show ?thesis by (simp add: process_event_def)
  qed
qed

lemma sweep_process_items:
  assumes refl: "\<And>s. P s (Inr (), s)"
    and raise: "\<And>s e. P s (Inl e, s)"
    and trans: "\<And>a b rc. P a (Inr (), b) \<Longrightarrow> P b rc \<Longrightarrow> P a rc"
    and get: "\<And>s rid r. P s (r, s\<lparr>calls := calls s @ [GetCall ''primary'' rid]\<rparr>)"
    and del: "\<And>s e. P s (delete_event svc cfg s e)"
  shows "P st (process_items svc cfg st evs)"
proof (induction evs arbitrary: st)
  case Nil
  show ?case by (simp add: refl)
next
  case (Cons ev evs)
  obtain r st' where p: "process_event svc cfg st ev = (r, st')" by (cases "process_event svc cfg st ev")
  have pp: "P st (r, st')"
    using sweep_process_event [where P = P and st = st and ev = ev, OF refl raise trans get del] p by simp
  show ?case
  proof (cases r)
    case (Inl e)
    with p pp show ?thesis by simp
  next
    case (Inr u)
    with pp Cons.IH [of st'] have "P st (process_items svc cfg st' evs)"
      using trans [of st st'] by simp
    with p Inr show ?thesis by simp
  qed
qed

lemma sweep_page_body:
  assumes refl: "\<And>s. P s (Inr (), s)"
    and raise: "\<And>s e. P s (Inl e, s)"
    and trans: "\<And>a b rc. P a (Inr (), b) \<Longrightarrow> P b rc \<Longrightarrow> P a rc"
    and get: "\<And>s rid r. P s (r, s\<lparr>calls := calls s @ [GetCall ''primary'' rid]\<rparr>)"
    and list: "\<And>s tok r. P s (r, s\<lparr>calls := calls s @ [ListCall (list_request_of cfg tok)]\<rparr>)"
    and del: "\<And>s e. P s (delete_event svc cfg s e)"
  shows "P st (without_token (page_body svc cfg st tok))"
proof -
  let ?req = "list_request_of cfg tok"
  let ?st1 = "st\<lparr>calls := calls st @ [ListCall ?req]\<rparr>"
  show ?thesis
  proof (cases "svc_list svc (calls st) ?req")
    case (Inl e)
    then show ?thesis
      by (simp add: page_body_def without_token_def Let_def list)
  next
    case (Inr events)
    obtain r st2 where p: "process_items svc cfg ?st1 (pg_items events) = (r, st2)"
      by (cases "process_items svc cfg ?st1 (pg_items events)")
    have "P ?st1 (r, st2)"
      using sweep_process_items [where P = P and st = ?st1 and evs = "pg_items events", OF refl raise trans get del] p
      by simp
    with list [of st "Inr ()" tok] have q: "P st (r, st2)" by (rule trans)
    show ?thesis
    proof (cases r)
      case (Inl e)
      with Inr p q show ?thesis by (simp add: page_body_def without_token_def Let_def)
    next
      case r: (Inr u)
      with Inr p q show ?thesis by (simp add: page_body_def without_token_def Let_def)
    qed
  qed
qed

lemma sweep_page_loop:
  assumes refl: "\<And>s. P s (Inr (), s)"
    and raise: "\<And>s e. P s (Inl e, s)"
    and trans: "\<And>a b rc. P a (Inr (), b) \<Longrightarrow> P b rc \<Longrightarrow> P a rc"
    and get: "\<And>s rid r. P s (r, s\<lparr>calls := calls s @ [GetCall ''primary'' rid]\<rparr>)"
    and list: "\<And>s tok r. P s (r, s\<lparr>calls := calls s @ [ListCall (list_request_of cfg tok)]\<rparr>)"
    and del: "\<And>s e. P s (delete_event svc cfg s e)"
  shows "page_loop n svc cfg st tok = Some rs \<Longrightarrow> P st rs"
proof (induction n arbitrary: st tok)
  case 0
  then show ?case by simp
next
  case (Suc n)
  obtain r st' where p: "page_body svc cfg st tok = (r, st')" by (cases "page_body svc cfg st tok")
  have b: "P st (without_token (r, st'))"
    using sweep_page_body [where P = P and st = st and tok = tok, OF refl raise trans get list del] p by simp
  show ?case
  proof (cases r)
    case (Inl e)
    with Suc.prems p b show ?thesis by (auto simp: without_token_def)
  next
    case (Inr t)
    with b have q: "P st (Inr (), st')" by (simp add: without_token_def)
    show ?thesis
    proof (cases "token_falsy t")
      case True
      with Suc.prems p Inr q show ?thesis by auto
    next
      case False
      with Suc.prems p Inr have "page_loop n svc cfg st' t = Some rs" by simp
      then have "P st' rs" by (rule Suc.IH)
      with q show ?thesis by (rule trans)
    qed
  qed
qed

section \<open>The set only grows, and counts the DELETED lines\<close>

lemma is_deleted_line_simps:
  "is_deleted_line (PrintError e) = False"
  "is_deleted_line (PrintLine (status_line ''DELETED'' d ev)) = True"
  "is_deleted_line (PrintLine (status_line ''ALREADY DELETED'' d ev)) = False"
  "is_deleted_line (PrintLine (status_line ''FAILED '' d ev)) = False"
  by (simp_all add: is_deleted_line_def status_line_def)

lemma delete_try_mono: "deleted_events st \<subseteq> deleted_events (snd (delete_try svc cfg st ev))"
proof (cases "ev_id ev")
  case None
  then show ?thesis by (simp add: delete_try_no_id)
next
  case (Some i)
  show ?thesis
  proof (cases "i \<in> deleted_events st")
    case True
    with Some show ?thesis by (simp add: delete_try_skip)
  next
    case False
    show ?thesis
    proof (cases "confirm_delete cfg")
      case c: False
      from delete_try_simulation [OF Some False c] show ?thesis by auto
    next
      case c: True
      show ?thesis
      proof (cases "answer_delete svc st i")
        case None
        from delete_try_deleted [OF Some False c None] show ?thesis by auto
      next
        case e: (Some err)
        show ?thesis
        proof (cases "err = HttpError 410")
          case True
          with e have "answer_delete svc st i = Some (HttpError 410)" by simp
          from delete_try_gone [OF Some False c this] show ?thesis by simp
        next
          case f: False
          from delete_try_failed [OF Some False c e f] show ?thesis by simp
        qed
      qed
    qed
  qed
qed

lemma delete_event_mono: "deleted_events st \<subseteq> deleted_events (snd (delete_event svc cfg st ev))"
proof -
  obtain a st' where t: "delete_try svc cfg st ev = (a, st')" by (cases "delete_try svc cfg st ev")
  with delete_try_mono [of st svc cfg ev] have "deleted_events st \<subseteq> deleted_events st'" by simp
  with delete_event_state [OF t] show ?thesis by simp
qed

lemma page_loop_mono:
  assumes "page_loop n svc cfg st tok = Some (r, st')"
  shows "deleted_events st \<subseteq> deleted_events st'"
proof -
  have "(\<lambda>a rb. deleted_events a \<subseteq> deleted_events (snd rb)) st (r, st')"
    by (rule sweep_page_loop [where P = "\<lambda>a rb. deleted_events a \<subseteq> deleted_events (snd rb)",
          OF _ _ _ _ _ _ assms])
       (auto simp: delete_event_mono)
  then show ?thesis by simp
qed

lemma process_event_mono:
  "deleted_events st \<subseteq> deleted_events (snd (process_event svc cfg st ev))"
  by (rule sweep_process_event [where P = "\<lambda>a rb. deleted_events a \<subseteq> deleted_events (snd rb)"])
     (auto simp: delete_event_mono)

lemma delete_event_count:
  assumes "count_agrees st" and "delete_event svc cfg st ev = (Inr (), st')"
  shows "count_agrees st'"
proof (cases "ev_id ev")
  case None
  show ?thesis
  proof (cases "get_datetime ev Start")
    case (Inl e)
    from delete_event_raises [OF delete_try_no_id [OF None] Inl] assms(2) show ?thesis by simp
  next
    case (Inr d)
    from delete_event_result [OF delete_try_no_id [OF None] Inr] assms
    show ?thesis by (auto simp: count_agrees_def deleted_lines_def is_deleted_line_simps)
  qed
next
  case (Some i)
  show ?thesis
  proof (cases "i \<in> deleted_events st")
    case True
    from delete_event_skip [OF Some True] assms show ?thesis by simp
  next
    case False
    show ?thesis
    proof (cases "get_datetime ev Start")
      case (Inl e)
      obtain a s where t: "delete_try svc cfg st ev = (a, s)" by (cases "delete_try svc cfg st ev")
      show ?thesis
      proof (cases a)
        case Returned
        with t Some False show ?thesis
          by (auto simp: delete_try_def Let_def split: if_splits option.splits error.splits)
      next
        case (Result r)
        with t delete_event_raises [OF _ Inl] assms(2) show ?thesis by simp
      qed
    next
      case (Inr d)
      have l: "filter is_deleted_line (attempt_log svc cfg st i) = []"
        by (cases "confirm_delete cfg"; cases "answer_delete svc st i")
          (simp_all add: attempt_log_def is_deleted_line_simps)
      have r: "attempt_result svc cfg st i = ''DELETED''
              \<or> attempt_result svc cfg st i = ''ALREADY DELETED''
              \<or> attempt_result svc cfg st i = ''FAILED ''"
        by (cases "confirm_delete cfg"; cases "answer_delete svc st i")
          (simp_all add: attempt_result_def)
      from delete_event_attempt [OF Some False Inr, of svc cfg] assms(2)
      have s: "st' = st\<lparr>calls := calls st @ (if confirm_delete cfg then [sent_delete i] else []),
               deleted_events :=
                 (if attempt_result svc cfg st i = ''DELETED'' then insert i (deleted_events st)
                  else deleted_events st),
               stdout := stdout st @ attempt_log svc cfg st i
                         @ [PrintLine (status_line (attempt_result svc cfg st i) d ev)]\<rparr>"
        by simp
      from r show ?thesis
      proof (elim disjE)
        assume "attempt_result svc cfg st i = ''DELETED''"
        with s l assms(1) False show ?thesis
          by (simp add: count_agrees_def deleted_lines_def is_deleted_line_simps)
      next
        assume "attempt_result svc cfg st i = ''ALREADY DELETED''"
        with s l assms(1) False show ?thesis
          by (simp add: count_agrees_def deleted_lines_def is_deleted_line_simps)
      next
        assume "attempt_result svc cfg st i = ''FAILED ''"
        with s l assms(1) False show ?thesis
          by (simp add: count_agrees_def deleted_lines_def is_deleted_line_simps)
      qed
    qed
  qed
qed

lemma page_loop_count:
  assumes "page_loop n svc cfg st tok = Some (Inr (), st')" and "count_agrees st"
  shows "count_agrees st'"
proof -
  let ?P = "\<lambda>a (rb :: (error + unit) \<times> state). fst rb = Inr () \<longrightarrow> count_agrees a \<longrightarrow> count_agrees (snd rb)"
  have "?P st (Inr (), st')"
  proof (rule sweep_page_loop [where P = ?P, OF _ _ _ _ _ _ assms(1)])
    show "?P s (delete_event svc cfg s e)" for s e
      using delete_event_count [of s svc cfg e] by (cases "delete_event svc cfg s e") auto
  qed (auto simp: count_agrees_def)
  with assms(2) show ?thesis by simp
qed

section \<open>The requests of a run\<close>

lemma list_requests_simps [simp]:
  "list_requests [] = []"
  "list_requests (cs @ ds) = list_requests cs @ list_requests ds"
  "list_requests [ListCall q] = [q]"
  "list_requests [GetCall a b] = []"
  "list_requests [DeleteCall a b c] = []"
  by (simp_all add: list_requests_def)

lemma standard_request_of [simp]: "standard_request cfg (list_request_of cfg tok)"
  by (simp add: standard_request_def list_request_of_def)





lemma delete_try_calls:
  "calls (snd (delete_try svc cfg st ev)) = calls st
   \<or> (\<exists>i. confirm_delete cfg \<and> calls (snd (delete_try svc cfg st ev)) = calls st @ [sent_delete i])"
proof (cases "ev_id ev")
  case None
  then show ?thesis by (simp add: delete_try_no_id)
next
  case (Some i)
  show ?thesis
  proof (cases "i \<in> deleted_events st")
    case True
    with Some show ?thesis by (simp add: delete_try_skip)
  next
    case False
    show ?thesis
    proof (cases "confirm_delete cfg")
      case c: False
      from delete_try_simulation [OF Some False c] show ?thesis by simp
    next
      case c: True
      show ?thesis
      proof (cases "answer_delete svc st i")
        case None
        from delete_try_deleted [OF Some False c None] c show ?thesis by auto
      next
        case e: (Some err)
        show ?thesis
        proof (cases "err = HttpError 410")
          case True
          with e have "answer_delete svc st i = Some (HttpError 410)" by simp
          from delete_try_gone [OF Some False c this] c show ?thesis by auto
        next
          case f: False
          from delete_try_failed [OF Some False c e f] c show ?thesis by auto
        qed
      qed
    qed
  qed
qed

lemma delete_event_calls:
  "calls (snd (delete_event svc cfg st ev)) = calls st
   \<or> (\<exists>i. confirm_delete cfg \<and> calls (snd (delete_event svc cfg st ev)) = calls st @ [sent_delete i])"
proof -
  obtain a st' where t: "delete_try svc cfg st ev = (a, st')" by (cases "delete_try svc cfg st ev")
  with delete_try_calls [of svc cfg st ev] delete_event_state [OF t] show ?thesis by simp
qed





section \<open>The rounds of the loop\<close>



section \<open>The end-to-end example\<close>

lemma strptime_datetime_20170106:
  "strptime_datetime ''2017-01-06T08:00:00'' = Inr (mk_datetime 2017 1 6 8 0 0)"
  unfolding strptime_datetime_def regex_date_def regex_time_def
  by (simp add: regex_defs) (simp add: value_defs mk_datetime_def)

lemma e2_fields:
  "ev_id e2 = Some ''E2''" "ev_recurringEventId e2 = Some ''R''" "ev_recurrence e2 = None"
  "get_datetime e2 Start = Inr (mk_datetime 2017 3 17 8 0 0)"
  "get_datetime e2 End = Inr (mk_datetime 2017 3 17 8 30 0)"
  by (simp_all add: e2_def at_time_def get_datetime_def event_at_def
      strptime_datetime_0800 strptime_datetime_20170317)

lemma series_r_fields:
  "ev_id series_r = Some ''R''" "ev_recurringEventId series_r = None"
  "ev_recurrence series_r = Some [''RRULE:FREQ=WEEKLY;UNTIL=20170317T083000Z'']"
  "get_datetime series_r Start = Inr (mk_datetime 2017 1 6 8 0 0)"
  by (simp_all add: series_r_def series_event_def get_datetime_def event_at_def
      strptime_datetime_20170106)

lemma passed_examples:
  "event_is_passed e1 (mk_datetime 2017 3 18 0 0 0) = Inr True"
  "event_is_passed e2 (mk_datetime 2017 3 18 0 0 0) = Inr True"
  "event_is_passed series_r (mk_datetime 2017 3 18 0 0 0) = Inr True"
  by (simp_all add: event_is_passed_def e1_fields e2_fields series_r_fields lt_a
      recurrence_passed_Cons rule_until_20170317 del: recurrence_passed.simps)

lemma lr_pageToken_request [simp]: "lr_pageToken (list_request_of cfg tok) = tok"
  by (simp add: list_request_of_def)

lemmas example_attempts =
  delete_event_attempt [OF e1_fields(1) _ e1_fields(4)]
  delete_event_attempt [OF e2_fields(1) _ e2_fields(4)]
  delete_event_attempt [OF series_r_fields(1) _ series_r_fields(4)]

lemmas sweep_defs = delete_events_def page_body_def process_event_def process_parent_def
  delete_if_passed_def is_recurrent_def token_falsy_def Let_def

lemma two_page_simulation:
  "delete_events 2 (two_page_service d) (example_config False) init_state =
     Some (Inr (),
       \<lparr>deleted_events = {''E1'', ''R'', ''E2''},
        stdout = [PrintLine (status_line ''DELETED'' (mk_datetime 2017 3 17 8 0 0) e1),
                  PrintLine (status_line ''DELETED'' (mk_datetime 2017 1 6 8 0 0) series_r),
                  PrintLine (status_line ''DELETED'' (mk_datetime 2017 3 17 8 0 0) e2)],
        calls = [ListCall (list_request_of (example_config False) None),
                 ListCall (list_request_of (example_config False) (Some ''T'')),
                 GetCall ''primary'' ''R'']\<rparr>)"
  by (simp add: numeral_2_eq_2 sweep_defs two_page_service_def fixed_service_def
      example_config_simps init_state_def passed_examples e1_fields e2_fields series_r_fields
      example_attempts attempt_result_def attempt_log_def insert_commute)

lemma two_page_confirmed:
  "delete_events 2 (two_page_service (\<lambda>i. None)) (example_config True) init_state =
     Some (Inr (),
       \<lparr>deleted_events = {''E1'', ''R'', ''E2''},
        stdout = [PrintLine (status_line ''DELETED'' (mk_datetime 2017 3 17 8 0 0) e1),
                  PrintLine (status_line ''DELETED'' (mk_datetime 2017 1 6 8 0 0) series_r),
                  PrintLine (status_line ''DELETED'' (mk_datetime 2017 3 17 8 0 0) e2)],
        calls = [ListCall (list_request_of (example_config True) None),
                 sent_delete ''E1'',
                 ListCall (list_request_of (example_config True) (Some ''T'')),
                 GetCall ''primary'' ''R'',
                 sent_delete ''R'',
                 sent_delete ''E2'']\<rparr>)"
  by (simp add: numeral_2_eq_2 sweep_defs two_page_service_def fixed_service_def
      example_config_simps init_state_def passed_examples e1_fields e2_fields series_r_fields
      example_attempts attempt_result_def attempt_log_def answer_delete_def insert_commute)

section \<open>A simulation and a confirmed run, step by step\<close>

lemma mode_simps [simp]:
  "confirm_delete (simulated cfg) = False" "confirm_delete (confirmed cfg) = True"
  "time_max (simulated cfg) = time_max cfg" "time_max (confirmed cfg) = time_max cfg"
  "list_request_of (simulated cfg) tok = list_request_of cfg tok"
  "list_request_of (confirmed cfg) tok = list_request_of cfg tok"
  by (simp_all add: simulated_def confirmed_def list_request_of_def)

lemma other_calls_simps [simp]:
  "other_calls (h @ [GetCall a b]) = other_calls h @ [GetCall a b]"
  "other_calls (h @ [ListCall q]) = other_calls h @ [ListCall q]"
  "other_calls (h @ [sent_delete i]) = other_calls h"
  by (simp_all add: other_calls_def is_delete_call_def sent_delete_def)

lemma delete_event_same:
  assumes "always_deletes svc" and "same_but_deletes s c"
  shows "same_result (delete_event svc (simulated cfg) s ev) (delete_event svc (confirmed cfg) c ev)"
proof (cases "ev_id ev")
  case None
  show ?thesis
  proof (cases "get_datetime ev Start")
    case (Inl e)
    from delete_event_raises [OF delete_try_no_id [OF None] Inl, of svc "simulated cfg" s]
         delete_event_raises [OF delete_try_no_id [OF None] Inl, of svc "confirmed cfg" c] assms(2)
    show ?thesis by (simp add: same_result_def same_but_deletes_def)
  next
    case (Inr d)
    from delete_event_result [OF delete_try_no_id [OF None] Inr, of svc "simulated cfg" s]
         delete_event_result [OF delete_try_no_id [OF None] Inr, of svc "confirmed cfg" c] assms(2)
    show ?thesis by (simp add: same_result_def same_but_deletes_def)
  qed
next
  case (Some i)
  show ?thesis
  proof (cases "i \<in> deleted_events s")
    case True
    with assms(2) have "i \<in> deleted_events c" by (simp add: same_but_deletes_def)
    from delete_event_skip [OF Some True, of svc "simulated cfg"]
         delete_event_skip [OF Some this, of svc "confirmed cfg"] assms(2)
    show ?thesis by (simp add: same_result_def)
  next
    case False
    with assms(2) have n: "i \<notin> deleted_events c" by (simp add: same_but_deletes_def)
    have a: "answer_delete svc c i = None"
      using assms(1) by (simp add: always_deletes_def answer_delete_def)
    have ts: "delete_try svc (simulated cfg) s ev =
                (Result ''DELETED'', s\<lparr>deleted_events := insert i (deleted_events s)\<rparr>)"
      by (rule delete_try_simulation [OF Some False]) simp
    have tc: "delete_try svc (confirmed cfg) c ev =
                (Result ''DELETED'',
                 c\<lparr>calls := calls c @ [sent_delete i],
                   deleted_events := insert i (deleted_events c)\<rparr>)"
      by (rule delete_try_deleted [OF Some n _ a]) simp
    show ?thesis
    proof (cases "get_datetime ev Start")
      case (Inl e)
      from delete_event_raises [OF ts Inl] delete_event_raises [OF tc Inl] assms(2)
      show ?thesis by (simp add: same_result_def same_but_deletes_def)
    next
      case (Inr d)
      from delete_event_result [OF ts Inr] delete_event_result [OF tc Inr] assms(2)
      show ?thesis by (simp add: same_result_def same_but_deletes_def)
    qed
  qed
qed

lemma delete_if_passed_same:
  assumes "always_deletes svc" and "same_but_deletes s c"
  shows "same_result (delete_if_passed svc (simulated cfg) s ev)
           (delete_if_passed svc (confirmed cfg) c ev)"
proof (cases "event_is_passed ev (time_max cfg)")
  case (Inl e)
  with assms(2) show ?thesis by (simp add: delete_if_passed_def same_result_def)
next
  case (Inr b)
  with assms(2) delete_event_same [OF assms, of cfg ev] show ?thesis
    by (cases b) (simp_all add: delete_if_passed_def same_result_def)
qed

lemma process_parent_same:
  assumes "always_deletes svc" and "blind_to_deletes svc" and "same_but_deletes s c"
  shows "same_result (process_parent svc (simulated cfg) s ev)
           (process_parent svc (confirmed cfg) c ev)"
proof (cases "ev_recurringEventId ev")
  case None
  with assms(3) show ?thesis by (simp add: process_parent_def is_recurrent_def same_result_def)
next
  case (Some rid)
  let ?s1 = "s\<lparr>calls := calls s @ [GetCall ''primary'' rid]\<rparr>"
  let ?c1 = "c\<lparr>calls := calls c @ [GetCall ''primary'' rid]\<rparr>"
  have g: "svc_get svc (calls s) ''primary'' rid = svc_get svc (calls c) ''primary'' rid"
    using assms(2,3) by (simp add: blind_to_deletes_def same_but_deletes_def)
  have r1: "same_but_deletes ?s1 ?c1"
    using assms(3) by (simp add: same_but_deletes_def)
  show ?thesis
  proof (cases "svc_get svc (calls c) ''primary'' rid")
    case (Inl e)
    with Some g r1 show ?thesis
      by (simp add: process_parent_def is_recurrent_def same_result_def)
  next
    case (Inr parent)
    with Some g delete_if_passed_same [OF assms(1) r1, of cfg parent] show ?thesis
      by (simp add: process_parent_def is_recurrent_def)
  qed
qed

lemma process_event_same:
  assumes "always_deletes svc" and "blind_to_deletes svc" and "same_but_deletes s c"
  shows "same_result (process_event svc (simulated cfg) s ev)
           (process_event svc (confirmed cfg) c ev)"
proof -
  obtain r s' where ps: "process_parent svc (simulated cfg) s ev = (r, s')"
    by (cases "process_parent svc (simulated cfg) s ev")
  obtain r' c' where pc: "process_parent svc (confirmed cfg) c ev = (r', c')"
    by (cases "process_parent svc (confirmed cfg) c ev")
  from process_parent_same [OF assms, of cfg ev] ps pc
  have e: "r' = r" and rel: "same_but_deletes s' c'" by (simp_all add: same_result_def)
  show ?thesis
  proof (cases r)
    case (Inl x)
    with ps pc e rel show ?thesis by (simp add: process_event_def same_result_def)
  next
    case (Inr u)
    with ps pc e delete_if_passed_same [OF assms(1) rel, of cfg ev] show ?thesis
      by (simp add: process_event_def)
  qed
qed

lemma process_items_same:
  assumes "always_deletes svc" and "blind_to_deletes svc" and "same_but_deletes s c"
  shows "same_result (process_items svc (simulated cfg) s evs)
           (process_items svc (confirmed cfg) c evs)"
  using assms(3)
proof (induction evs arbitrary: s c)
  case Nil
  then show ?case by (simp add: same_result_def)
next
  case (Cons ev evs)
  obtain r s' where ps: "process_event svc (simulated cfg) s ev = (r, s')"
    by (cases "process_event svc (simulated cfg) s ev")
  obtain r' c' where pc: "process_event svc (confirmed cfg) c ev = (r', c')"
    by (cases "process_event svc (confirmed cfg) c ev")
  from process_event_same [OF assms(1,2) Cons.prems, of cfg ev] ps pc
  have e: "r' = r" and rel: "same_but_deletes s' c'" by (simp_all add: same_result_def)
  show ?case
  proof (cases r)
    case (Inl x)
    with ps pc e rel show ?thesis by (simp add: same_result_def)
  next
    case (Inr u)
    with ps pc e Cons.IH [OF rel] show ?thesis by simp
  qed
qed

lemma page_body_same:
  assumes "always_deletes svc" and "blind_to_deletes svc" and "same_but_deletes s c"
  shows "same_result (page_body svc (simulated cfg) s tok) (page_body svc (confirmed cfg) c tok)"
proof -
  let ?q = "list_request_of cfg tok"
  let ?s1 = "s\<lparr>calls := calls s @ [ListCall ?q]\<rparr>"
  let ?c1 = "c\<lparr>calls := calls c @ [ListCall ?q]\<rparr>"
  have l: "svc_list svc (calls s) ?q = svc_list svc (calls c) ?q"
    using assms(2,3) by (simp add: blind_to_deletes_def same_but_deletes_def)
  have r1: "same_but_deletes ?s1 ?c1"
    using assms(3) by (simp add: same_but_deletes_def)
  show ?thesis
  proof (cases "svc_list svc (calls c) ?q")
    case (Inl e)
    with l r1 show ?thesis by (simp add: page_body_def same_result_def)
  next
    case (Inr events)
    obtain r s' where ps: "process_items svc (simulated cfg) ?s1 (pg_items events) = (r, s')"
      by (cases "process_items svc (simulated cfg) ?s1 (pg_items events)")
    obtain r' c' where pc: "process_items svc (confirmed cfg) ?c1 (pg_items events) = (r', c')"
      by (cases "process_items svc (confirmed cfg) ?c1 (pg_items events)")
    from process_items_same [OF assms(1,2) r1, of cfg "pg_items events"] ps pc
    have e: "r' = r" and rel: "same_but_deletes s' c'" by (simp_all add: same_result_def)
    show ?thesis
    proof (cases r)
      case (Inl x)
      with Inr l ps pc e rel show ?thesis by (simp add: page_body_def same_result_def)
    next
      case r: (Inr u)
      with Inr l ps pc e rel show ?thesis by (simp add: page_body_def same_result_def)
    qed
  qed
qed

lemma page_loop_same:
  assumes "always_deletes svc" and "blind_to_deletes svc" and "same_but_deletes s c"
  shows "same_outcome (page_loop n svc (simulated cfg) s tok) (page_loop n svc (confirmed cfg) c tok)"
  using assms(3)
proof (induction n arbitrary: s c tok)
  case 0
  show ?case by (simp add: same_outcome_def)
next
  case (Suc n)
  obtain r s' where ps: "page_body svc (simulated cfg) s tok = (r, s')"
    by (cases "page_body svc (simulated cfg) s tok")
  obtain r' c' where pc: "page_body svc (confirmed cfg) c tok = (r', c')"
    by (cases "page_body svc (confirmed cfg) c tok")
  from page_body_same [OF assms(1,2) Suc.prems, of cfg tok] ps pc
  have e: "r' = r" and rel: "same_but_deletes s' c'" by (simp_all add: same_result_def)
  show ?case
  proof (cases r)
    case (Inl x)
    with ps pc e rel show ?thesis
      by (simp add: same_outcome_def same_but_deletes_def final_count_def)
  next
    case (Inr t)
    show ?thesis
    proof (cases "token_falsy t")
      case True
      with Inr ps pc e rel show ?thesis
        by (simp add: same_outcome_def same_but_deletes_def final_count_def)
    next
      case False
      with Inr ps pc e Suc.IH [OF rel, of t] show ?thesis by simp
    qed
  qed
qed

lemma simulation_sends_no_delete:
  assumes "\<not> confirm_delete cfg" and "page_loop n svc cfg st tok = Some (r, st')"
  shows "filter is_delete_call (calls st') = filter is_delete_call (calls st)"
proof -
  let ?P = "\<lambda>a (rb :: (error + unit) \<times> state).
              filter is_delete_call (calls (snd rb)) = filter is_delete_call (calls a)"
  have "?P st (r, st')"
  proof (rule sweep_page_loop [where P = ?P, OF _ _ _ _ _ _ assms(2)])
    show "?P s (delete_event svc cfg s e)" for s e
      using delete_event_calls [of svc cfg s e] assms(1) by auto
  qed (simp_all add: is_delete_call_def)
  then show ?thesis by simp
qed

lemma fixed_service_blind: "blind_to_deletes (fixed_service l g d)"
  by (simp add: blind_to_deletes_def fixed_service_def)

lemma example_modes:
  "simulated (example_config b) = example_config False"
  "confirmed (example_config b) = example_config True"
  by (simp_all add: simulated_def confirmed_def example_config_def)

section \<open>The parsers read what the formats print\<close>

lemma first_is_Cons [simp]: "first_is (y # ys) x \<longleftrightarrow> y = x"
  by (simp add: first_is_def)

lemma first_is_append: "first_is xs x \<Longrightarrow> first_is (xs @ ys) x"
  by (cases xs) (simp_all add: first_is_def)

lemma first_is_append_Nil: "xs = [] \<Longrightarrow> first_is ys x \<Longrightarrow> first_is (xs @ ys) x"
  by simp

lemma first_is_bind:
  "first_is xs x \<Longrightarrow> first_is (f x) y \<Longrightarrow> first_is (concat (map f xs)) y"
  by (cases xs) (simp_all add: first_is_def split: list.splits)

lemma first_isE: "first_is xs x \<Longrightarrow> \<exists>t. xs = x # t"
  by (cases xs) (simp_all add: first_is_def)

lemma of_char_digit: "k < 10 \<Longrightarrow> of_char (''0123456789'' ! k) = (48 + k :: nat)"
proof -
  assume "k < 10"
  then have "k = 0 \<or> k = 1 \<or> k = 2 \<or> k = 3 \<or> k = 4 \<or> k = 5 \<or> k = 6 \<or> k = 7 \<or> k = 8 \<or> k = 9"
    by arith
  then show ?thesis by (elim disjE) simp_all
qed

lemma of_char_digit_char: "of_char (digit_char n) = (48 + n mod 10 :: nat)"
  by (simp add: digit_char_def of_char_digit)

lemma is_digit_digit_char [simp]: "is_digit (digit_char n)"
  by (simp add: is_digit_def of_char_digit_char)

lemma digit_val_digit_char [simp]: "digit_val (digit_char n) = n mod 10"
  by (simp add: digit_val_def of_char_digit_char)

lemma in_range_digit_char:
  "in_range (CHR ''0'') (CHR ''1'') (digit_char n) \<longleftrightarrow> n mod 10 \<le> 1"
  "in_range (CHR ''0'') (CHR ''2'') (digit_char n) \<longleftrightarrow> n mod 10 \<le> 2"
  "in_range (CHR ''0'') (CHR ''3'') (digit_char n) \<longleftrightarrow> n mod 10 \<le> 3"
  "in_range (CHR ''0'') (CHR ''5'') (digit_char n) \<longleftrightarrow> n mod 10 \<le> 5"
  "in_range (CHR ''1'') (CHR ''2'') (digit_char n) \<longleftrightarrow> 1 \<le> n mod 10 \<and> n mod 10 \<le> 2"
  "in_range (CHR ''1'') (CHR ''9'') (digit_char n) \<longleftrightarrow> 1 \<le> n mod 10"
  by (auto simp: in_range_def of_char_digit_char)

lemma digit_char_eq:
  "digit_char n = CHR ''0'' \<longleftrightarrow> n mod 10 = 0"
  "digit_char n = CHR ''1'' \<longleftrightarrow> n mod 10 = 1"
  "digit_char n = CHR ''2'' \<longleftrightarrow> n mod 10 = 2"
  "digit_char n = CHR ''3'' \<longleftrightarrow> n mod 10 = 3"
  "digit_char n = CHR ''6'' \<longleftrightarrow> n mod 10 = 6"
proof -
  have e: "digit_char n = c \<longleftrightarrow> (of_char (digit_char n) :: nat) = of_char c" for c
    by simp
  show "digit_char n = CHR ''0'' \<longleftrightarrow> n mod 10 = 0"
    "digit_char n = CHR ''1'' \<longleftrightarrow> n mod 10 = 1"
    "digit_char n = CHR ''2'' \<longleftrightarrow> n mod 10 = 2"
    "digit_char n = CHR ''3'' \<longleftrightarrow> n mod 10 = 3"
    "digit_char n = CHR ''6'' \<longleftrightarrow> n mod 10 = 6"
    by (simp_all only: e of_char_digit_char) simp_all
qed

lemma py_int_fmt2: "n < 100 \<Longrightarrow> py_int (fmt2 n) = n"
  by (simp add: py_int_def fmt2_def)

lemma dec4:
  assumes "n < 10000"
  shows "10 * (10 * (10 * (n div 1000 mod 10) + n div 100 mod 10) + n div 10 mod 10) + n mod 10
           = (n::nat)"
proof -
  have a: "n div 100 = n div 10 div 10" and b: "n div 1000 = n div 10 div 10 div 10"
    by (simp_all add: div_mult2_eq)
  from assms have "n div 1000 < 10" by simp
  then have c: "n div 1000 mod 10 = n div 1000" by simp
  have "10 * (n div 10 div 10 div 10) + n div 10 div 10 mod 10 = n div 10 div 10"
    by (rule mult_div_mod_eq)
  moreover have "10 * (n div 10 div 10) + n div 10 mod 10 = n div 10"
    by (rule mult_div_mod_eq)
  moreover have "10 * (n div 10) + n mod 10 = n"
    by (rule mult_div_mod_eq)
  ultimately show ?thesis
    unfolding c unfolding a b by simp
qed

lemma py_int_fmt4: "n < 10000 \<Longrightarrow> py_int (fmt4 n) = n"
  using dec4 [of n] by (simp add: py_int_def fmt4_def)

lemma re_lit_Cons: "c \<in> set cs \<Longrightarrow> re_lit cs (c # r) = [([c], r)]"
  by (simp add: re_lit_def one_def)

lemma re_Y_fmt4: "re_Y (fmt4 y @ r) = [(fmt4 y, r)]"
  by (simp add: re_Y_def fmt4_def)

lemma re_m_fmt2:
  assumes "1 \<le> m" and "m \<le> 12"
  shows "first_is (re_m (fmt2 m @ r)) (fmt2 m, r)"
proof (cases "m < 10")
  case True
  with assms have "m div 10 = 0" "1 \<le> m mod 10" by simp_all
  then show ?thesis
    by (simp add: re_m_def two_def one_def fmt2_def digit_char_eq in_range_digit_char)
next
  case False
  with assms have "m div 10 = 1" "m mod 10 \<le> 2" by arith+
  then show ?thesis
    by (simp add: re_m_def two_def one_def fmt2_def digit_char_eq in_range_digit_char)
qed

lemma re_d_fmt2:
  assumes "1 \<le> d" and "d \<le> 31"
  shows "first_is (re_d (fmt2 d @ r)) (fmt2 d, r)"
proof -
  consider "d < 10" | "10 \<le> d \<and> d < 30" | "30 \<le> d" by arith
  then show ?thesis
  proof cases
    case 1
    with assms have "d div 10 = 0" "1 \<le> d mod 10" by simp_all
    then show ?thesis
      by (simp add: re_d_def two_def one_def fmt2_def digit_char_eq in_range_digit_char)
  next
    case 2
    then have "d div 10 = 1 \<or> d div 10 = 2" by arith
    then show ?thesis
      by (auto simp: re_d_def two_def one_def fmt2_def digit_char_eq in_range_digit_char)
  next
    case 3
    with assms have "d div 10 = 3" "d mod 10 \<le> 1" by arith+
    then show ?thesis
      by (simp add: re_d_def two_def one_def fmt2_def digit_char_eq in_range_digit_char)
  qed
qed

lemma re_H_fmt2:
  assumes "h \<le> 23"
  shows "first_is (re_H (fmt2 h @ r)) (fmt2 h, r)"
proof (cases "h < 20")
  case True
  then have "h div 10 \<le> 1" by arith
  then show ?thesis
    by (simp add: re_H_def two_def one_def fmt2_def digit_char_eq in_range_digit_char)
next
  case False
  with assms have "h div 10 = 2" "h mod 10 \<le> 3" by arith+
  then show ?thesis
    by (simp add: re_H_def two_def one_def fmt2_def digit_char_eq in_range_digit_char)
qed

lemma re_M_fmt2:
  assumes "m \<le> 59"
  shows "first_is (re_M (fmt2 m @ r)) (fmt2 m, r)"
proof -
  from assms have "m div 10 \<le> 5" by arith
  then show ?thesis
    by (simp add: re_M_def two_def one_def fmt2_def in_range_digit_char)
qed

lemma re_S_fmt2:
  assumes "s \<le> 59"
  shows "first_is (re_S (fmt2 s @ r)) (fmt2 s, r)"
proof -
  from assms have "s div 10 \<le> 5" "s div 10 \<noteq> 6" by arith+
  then show ?thesis
    by (simp add: re_S_def two_def one_def fmt2_def digit_char_eq in_range_digit_char)
qed

lemma regex_date_fmt:
  assumes "1 \<le> m" and "m \<le> 12" and "1 \<le> d" and "d \<le> 31"
  shows "first_is (regex_date (fmt4 y @ ''-'' @ fmt2 m @ ''-'' @ fmt2 d @ r))
           ((fmt4 y, fmt2 m, fmt2 d), r)"
proof -
  obtain tm where m: "re_m (fmt2 m @ CHR ''-'' # fmt2 d @ r) = (fmt2 m, CHR ''-'' # fmt2 d @ r) # tm"
    using first_isE [OF re_m_fmt2 [OF assms(1,2)]] by blast
  obtain td where d: "re_d (fmt2 d @ r) = (fmt2 d, r) # td"
    using first_isE [OF re_d_fmt2 [OF assms(3,4)]] by blast
  show ?thesis
    by (simp add: regex_date_def re_Y_fmt4 re_lit_Cons m d)
qed

lemma regex_time_fmt:
  assumes "h \<le> 23" and "m \<le> 59" and "s \<le> 59"
  shows "first_is (regex_time (fmt2 h @ '':'' @ fmt2 m @ '':'' @ fmt2 s @ r))
           ((fmt2 h, fmt2 m, fmt2 s), r)"
proof -
  obtain th where h: "re_H (fmt2 h @ CHR '':'' # fmt2 m @ CHR '':'' # fmt2 s @ r)
                        = (fmt2 h, CHR '':'' # fmt2 m @ CHR '':'' # fmt2 s @ r) # th"
    using first_isE [OF re_H_fmt2 [OF assms(1)]] by blast
  obtain tm where m: "re_M (fmt2 m @ CHR '':'' # fmt2 s @ r) = (fmt2 m, CHR '':'' # fmt2 s @ r) # tm"
    using first_isE [OF re_M_fmt2 [OF assms(2)]] by blast
  obtain ts where s: "re_S (fmt2 s @ r) = (fmt2 s, r) # ts"
    using first_isE [OF re_S_fmt2 [OF assms(3)]] by blast
  show ?thesis
    by (simp add: regex_time_def re_lit_Cons h m s)
qed

lemma days_in_month_le: "days_in_month y m \<le> 31"
  by (simp add: days_in_month_def)

lemma datetime_new_valid:
  "valid_datetime d \<Longrightarrow>
   datetime_new (dt_year d) (dt_month d) (dt_day d) (dt_hour d) (dt_minute d) (dt_second d)
     (dt_microsecond d) = Inr d"
  by (simp add: datetime_new_def valid_datetime_def)

text \<open>
  A date printed as \<open>YYYY-MM-DD\<close> parses back with \<open>%Y-%m-%d\<close>, and a datetime
  printed by \<open>isoformat\<close>, followed by any time zone, parses back from its first 19
  characters with \<open>%Y-%m-%dT%H:%M:%S\<close>.
\<close>

lemma strptime_date_isoformat:
  assumes "valid_datetime d" and "dt_hour d = 0" and "dt_minute d = 0" and "dt_second d = 0"
    and "dt_microsecond d = 0"
  shows "strptime_date (isoformat_date d) = Inr d"
proof -
  from assms(1) have v: "1 \<le> dt_month d" "dt_month d \<le> 12" "1 \<le> dt_day d" "dt_day d \<le> 31"
    "dt_year d < 10000" "dt_month d < 100" "dt_day d < 100"
    using days_in_month_le [of "dt_year d" "dt_month d"] by (simp_all add: valid_datetime_def)
  obtain t where "regex_date (fmt4 (dt_year d) @ ''-'' @ fmt2 (dt_month d) @ ''-''
                    @ fmt2 (dt_day d) @ [])
                  = ((fmt4 (dt_year d), fmt2 (dt_month d), fmt2 (dt_day d)), []) # t"
    using first_isE [OF regex_date_fmt [OF v(1-4)]] by blast
  then have "strptime_date (isoformat_date d) =
               datetime_new (dt_year d) (dt_month d) (dt_day d) 0 0 0 0"
    using v by (simp add: strptime_date_def isoformat_date_def py_int_fmt2 py_int_fmt4)
  with datetime_new_valid [OF assms(1)] assms(2-5) show ?thesis by simp
qed

lemma strptime_datetime_isoformat:
  assumes "valid_datetime d" and "dt_microsecond d = 0"
  shows "strptime_datetime (isoformat d) = Inr d"
proof -
  from assms(1) have v: "1 \<le> dt_month d" "dt_month d \<le> 12" "1 \<le> dt_day d" "dt_day d \<le> 31"
    "dt_year d < 10000" "dt_month d < 100" "dt_day d < 100"
    "dt_hour d \<le> 23" "dt_minute d \<le> 59" "dt_second d \<le> 59"
    "dt_hour d < 100" "dt_minute d < 100" "dt_second d < 100"
    using days_in_month_le [of "dt_year d" "dt_month d"] by (simp_all add: valid_datetime_def)
  let ?time = "fmt2 (dt_hour d) @ '':'' @ fmt2 (dt_minute d) @ '':'' @ fmt2 (dt_second d) @ []"
  obtain t where a: "regex_date (fmt4 (dt_year d) @ ''-'' @ fmt2 (dt_month d) @ ''-''
                    @ fmt2 (dt_day d) @ CHR ''T'' # ?time)
                  = ((fmt4 (dt_year d), fmt2 (dt_month d), fmt2 (dt_day d)), CHR ''T'' # ?time) # t"
    using first_isE [OF regex_date_fmt [OF v(1-4)]] by blast
  obtain t' where b: "regex_time ?time
                  = ((fmt2 (dt_hour d), fmt2 (dt_minute d), fmt2 (dt_second d)), []) # t'"
    using first_isE [OF regex_time_fmt [OF v(8-10)]] by blast
  from a b have "strptime_datetime (isoformat d) =
               datetime_new (dt_year d) (dt_month d) (dt_day d) (dt_hour d) (dt_minute d)
                 (dt_second d) 0"
    using v assms(2)
    by (simp add: strptime_datetime_def isoformat_def isoformat_sep_def re_lit_Cons
        py_int_fmt2 py_int_fmt4)
  with datetime_new_valid [OF assms(1)] assms(2) show ?thesis by simp
qed

lemma length_isoformat: "dt_microsecond d = 0 \<Longrightarrow> length (isoformat d) = 19"
  by (simp add: isoformat_def isoformat_sep_def fmt2_def fmt4_def)

lemma strptime_datetime_isoformat_zone:
  assumes "valid_datetime d" and "dt_microsecond d = 0"
  shows "strptime_datetime (take 19 (isoformat d @ zone)) = Inr d"
  using strptime_datetime_isoformat [OF assms] length_isoformat [OF assms(2)] by simp

text \<open>
  An UNTIL value has the form the pattern looks for, the first 13 characters parse back
  to its instant with the seconds dropped, and the search finds it in a weekly rule.
\<close>

lemma until_form_text: "until_form (until_text d)"
  by (simp add: until_form_def until_text_def fmt2_def fmt4_def)

lemma strptime_until_text:
  assumes "valid_datetime d" and "dt_microsecond d = 0"
  shows "strptime_until (take 13 (until_text d)) = Inr (d\<lparr>dt_second := 0\<rparr>)"
proof -
  from assms(1) have v: "1 \<le> dt_month d" "dt_month d \<le> 12" "1 \<le> dt_day d" "dt_day d \<le> 31"
    "dt_year d < 10000" "dt_month d < 100" "dt_day d < 100"
    "dt_hour d \<le> 23" "dt_minute d \<le> 59" "dt_hour d < 100" "dt_minute d < 100"
    using days_in_month_le [of "dt_year d" "dt_month d"] by (simp_all add: valid_datetime_def)
  have t: "take 13 (until_text d) =
             fmt4 (dt_year d) @ fmt2 (dt_month d) @ fmt2 (dt_day d) @ CHR ''T''
             # fmt2 (dt_hour d) @ fmt2 (dt_minute d) @ []"
    by (simp add: until_text_def fmt2_def fmt4_def)
  obtain tm where m: "re_m (fmt2 (dt_month d) @ fmt2 (dt_day d) @ CHR ''T''
                        # fmt2 (dt_hour d) @ fmt2 (dt_minute d) @ [])
      = (fmt2 (dt_month d), fmt2 (dt_day d) @ CHR ''T'' # fmt2 (dt_hour d) @ fmt2 (dt_minute d) @ [])
        # tm"
    using first_isE [OF re_m_fmt2 [OF v(1,2)]] by blast
  obtain td where dd: "re_d (fmt2 (dt_day d) @ CHR ''T'' # fmt2 (dt_hour d) @ fmt2 (dt_minute d) @ [])
      = (fmt2 (dt_day d), CHR ''T'' # fmt2 (dt_hour d) @ fmt2 (dt_minute d) @ []) # td"
    using first_isE [OF re_d_fmt2 [OF v(3,4)]] by blast
  obtain th where h: "re_H (fmt2 (dt_hour d) @ fmt2 (dt_minute d) @ [])
      = (fmt2 (dt_hour d), fmt2 (dt_minute d) @ []) # th"
    using first_isE [OF re_H_fmt2 [OF v(8)]] by blast
  obtain tn where n: "re_M (fmt2 (dt_minute d) @ []) = (fmt2 (dt_minute d), []) # tn"
    using first_isE [OF re_M_fmt2 [OF v(9)]] by blast
  have "strptime_until (take 13 (until_text d)) =
          datetime_new (dt_year d) (dt_month d) (dt_day d) (dt_hour d) (dt_minute d) 0 0"
    unfolding t using m dd h n v
    by (simp add: strptime_until_def re_Y_fmt4 re_lit_Cons py_int_fmt2 py_int_fmt4)
  moreover have "valid_datetime (d\<lparr>dt_second := 0\<rparr>)"
    using assms(1) by (simp add: valid_datetime_def)
  ultimately show ?thesis
    using datetime_new_valid [of "d\<lparr>dt_second := 0\<rparr>"] assms(2) by simp
qed

lemma match_until_not_U: "c \<noteq> CHR ''U'' \<Longrightarrow> match_until (c # cs) = None"
  by (simp add: match_until_def)

lemma match_until_not_N: "c2 \<noteq> CHR ''N'' \<Longrightarrow> match_until (c # c2 # cs) = None"
  by (simp add: match_until_def)

lemma search_weekly_until: "re_search_until (weekly_until d) = Some (until_text d)"
proof -
  have "match_until (''UNTIL='' @ until_text d @ []) = Some (until_text d)"
    using match_until_Some_iff [of "''UNTIL='' @ until_text d @ []" "until_text d"]
      until_form_text [of d] by blast
  then have m: "match_until (CHR ''U'' # CHR ''N'' # CHR ''T'' # CHR ''I'' # CHR ''L'' # CHR ''=''
                  # until_text d) = Some (until_text d)"
    by simp
  show ?thesis
    unfolding weekly_until_def
    by (simp add: m match_until_not_U match_until_not_N)
qed

lemma rule_until_weekly:
  assumes "valid_datetime d" and "dt_microsecond d = 0"
  shows "rule_until (weekly_until d) = Some (Inr (d\<lparr>dt_second := 0\<rparr>))"
proof -
  have "str_contains ''RRULE'' (weekly_until d)"
    by (simp add: weekly_until_def)
  then show ?thesis
    by (simp add: rule_until_def search_weekly_until strptime_until_text [OF assms])
qed

section \<open>No identifier is deleted twice\<close>

lemma deleted_from_snoc:
  "deleted_from svc h (cs @ [c]) =
     deleted_from svc h cs
     @ (case c of
          DeleteCall a i u \<Rightarrow> if svc_delete svc (h @ cs) a i u = None then [i] else []
        | _ \<Rightarrow> [])"
  by (induction cs arbitrary: h) (simp_all split: api_call.splits)

lemma really_deleted_simps:
  "really_deleted svc (st\<lparr>calls := calls st @ [GetCall a b]\<rparr>) = really_deleted svc st"
  "really_deleted svc (st\<lparr>calls := calls st @ [ListCall q]\<rparr>) = really_deleted svc st"
  "really_deleted svc (st\<lparr>calls := calls st @ [sent_delete i]\<rparr>) =
     really_deleted svc st @ (if answer_delete svc st i = None then [i] else [])"
  by (simp_all add: really_deleted_def deleted_from_snoc sent_delete_def answer_delete_def)

lemma really_deleted_cong:
  "calls a = calls b \<Longrightarrow> really_deleted svc a = really_deleted svc b"
  by (simp add: really_deleted_def)

lemma delete_try_once:
  assumes "deleted_once svc st"
  shows "deleted_once svc (snd (delete_try svc cfg st ev))"
proof (cases "ev_id ev")
  case None
  with assms show ?thesis
    by (simp add: delete_try_no_id deleted_once_def really_deleted_def)
next
  case (Some i)
  show ?thesis
  proof (cases "i \<in> deleted_events st")
    case True
    with Some assms show ?thesis by (simp add: delete_try_skip)
  next
    case False
    show ?thesis
    proof (cases "confirm_delete cfg")
      case c: False
      from delete_try_simulation [OF Some False c] assms show ?thesis
        by (auto simp: deleted_once_def really_deleted_def)
    next
      case c: True
      let ?st1 = "st\<lparr>calls := calls st @ [sent_delete i]\<rparr>"
      show ?thesis
      proof (cases "answer_delete svc st i")
        case None
        have "really_deleted svc (?st1\<lparr>deleted_events := insert i (deleted_events st)\<rparr>)
                = really_deleted svc st @ [i]"
          using really_deleted_simps(3) [of svc st i] None
          by (simp add: really_deleted_def)
        with delete_try_deleted [OF Some False c None] assms False show ?thesis
          by (auto simp: deleted_once_def)
      next
        case e: (Some err)
        have r: "really_deleted svc ?st1 = really_deleted svc st"
          using really_deleted_simps(3) [of svc st i] e by simp
        show ?thesis
        proof (cases "err = HttpError 410")
          case True
          with e have "answer_delete svc st i = Some (HttpError 410)" by simp
          from delete_try_gone [OF Some False c this] assms r show ?thesis
            by (simp add: deleted_once_def)
        next
          case f: False
          have "really_deleted svc (?st1\<lparr>stdout := stdout st @ [PrintError err]\<rparr>)
                  = really_deleted svc st"
            using r by (simp add: really_deleted_def)
          with delete_try_failed [OF Some False c e f] assms show ?thesis
            by (simp add: deleted_once_def)
        qed
      qed
    qed
  qed
qed

lemma delete_event_once:
  assumes "deleted_once svc st"
  shows "deleted_once svc (snd (delete_event svc cfg st ev))"
proof -
  obtain a st' where t: "delete_try svc cfg st ev = (a, st')" by (cases "delete_try svc cfg st ev")
  with delete_try_once [OF assms, of cfg ev] have "deleted_once svc st'" by simp
  with delete_event_state [OF t] show ?thesis
    by (simp add: deleted_once_def really_deleted_def)
qed

lemma page_loop_once:
  assumes "page_loop n svc cfg st tok = Some (r, st')" and "deleted_once svc st"
  shows "deleted_once svc st'"
proof -
  let ?P = "\<lambda>a (rb :: (error + unit) \<times> state). deleted_once svc a \<longrightarrow> deleted_once svc (snd rb)"
  have "?P st (r, st')"
  proof (rule sweep_page_loop [where P = ?P, OF _ _ _ _ _ _ assms(1)])
    show "?P s (delete_event svc cfg s e)" for s e
      using delete_event_once [of svc s cfg e] by simp
  qed (simp_all add: deleted_once_def really_deleted_simps)
  with assms(2) show ?thesis by simp
qed

lemma init_deleted_once: "deleted_once svc init_state"
  by (simp add: deleted_once_def really_deleted_def init_state_def)

section \<open>The page tokens asked for and returned\<close>









section \<open>Rules whose UNTIL the expression does not match\<close>

lemma match_until_needs_prefix: "take 6 s \<noteq> ''UNTIL='' \<Longrightarrow> match_until s = None"
  unfolding match_until_def by (simp only: if_False simp_thms)

lemma search_needs_until: "re_search_until s \<noteq> None \<Longrightarrow> str_contains ''UNTIL='' s"
proof -
  assume "re_search_until s \<noteq> None"
  then have "\<exists>pre g post. s = pre @ ''UNTIL='' @ g @ post \<and> until_form g"
    by (simp add: re_search_until_None_iff)
  then obtain pre g post where h: "s = pre @ ''UNTIL='' @ g @ post"
    by auto
  show ?thesis
    unfolding str_contains_iff by (rule exI [of _ pre], rule exI [of _ "g @ post"], rule h)
qed

lemma after_until_Cons:
  "after_until (c # cs) =
     (if take 6 (c # cs) = ''UNTIL='' then Some (drop 6 (c # cs)) else after_until cs)"
  by (rule after_until.simps(2))

lemma re_search_until_Cons:
  "re_search_until (c # cs) =
     (case match_until (c # cs) of Some g \<Rightarrow> Some g | None \<Rightarrow> re_search_until cs)"
  by (rule re_search_until.simps(2))

lemma single_until_no_match:
  "after_until s = Some rest \<Longrightarrow> \<not> until_form (take 16 rest) \<Longrightarrow>
   \<not> str_contains ''UNTIL='' rest \<Longrightarrow> re_search_until s = None"
proof (induction s)
  case Nil
  then show ?case by simp
next
  case (Cons c cs)
  show ?case
  proof (cases "take 6 (c # cs) = ''UNTIL=''")
    case False
    with Cons.prems(1) have a: "after_until cs = Some rest"
      by (simp only: after_until_Cons if_False)
    from False have "match_until (c # cs) = None"
      by (rule match_until_needs_prefix)
    with Cons.IH [OF a Cons.prems(2,3)] show ?thesis
      by (simp only: re_search_until_Cons option.case)
  next
    case True
    with Cons.prems(1) have r: "drop 6 (c # cs) = rest"
      by simp
    from r Cons.prems(2) have m: "match_until (c # cs) = None"
      unfolding match_until_def by (simp only: simp_thms if_False)
    have "c # cs = take 6 (c # cs) @ drop 6 (c # cs)"
      by (simp only: append_take_drop_id)
    with True r have "c # cs = ''UNTIL='' @ rest"
      by (simp only:)
    then have s: "cs = ''NTIL='' @ rest"
      by simp
    have "\<not> str_contains ''UNTIL='' cs"
      unfolding s using Cons.prems(3) by simp
    then have "re_search_until cs = None"
      using search_needs_until [of cs] by blast
    with m show ?thesis
      by (simp only: re_search_until_Cons option.case)
  qed
qed

lemma until_form_takeWhile: "until_form (takeWhile P s) \<Longrightarrow> take 16 s = takeWhile P s"
proof -
  assume "until_form (takeWhile P s)"
  then have l: "length (takeWhile P s) = 16"
    by (simp add: until_form_def)
  have "takeWhile P s = take (length (takeWhile P s)) s"
    by (metis append_eq_conv_conj takeWhile_dropWhile_id)
  with l show ?thesis by simp
qed

lemma unmatched_until_other_form: "unmatched_until r \<Longrightarrow> other_form r"
proof (cases "after_until r")
  case None
  assume "unmatched_until r"
  with None show ?thesis by (simp add: unmatched_until_def)
next
  case (Some rest)
  assume "unmatched_until r"
  with Some have "\<not> until_form (take 16 rest)"
    by (simp add: unmatched_until_def)
  then have "\<not> until_form (takeWhile (\<lambda>c. c \<noteq> CHR '';'') rest)"
    using until_form_takeWhile [of "\<lambda>c. c \<noteq> CHR '';''" rest] by auto
  with Some show ?thesis
    by (simp add: other_form_def until_value_def)
qed

lemma unmatched_until_search: "unmatched_until r \<Longrightarrow> re_search_until r = None"
  by (cases "after_until r") (simp_all add: unmatched_until_def single_until_no_match)

lemma recurrence_passed_drop:
  "re_search_until r = None \<Longrightarrow>
   recurrence_passed (pre @ r # post) tmax = recurrence_passed (pre @ post) tmax"
  by (induction pre) (simp_all split: option.splits sum.splits)

lemma strptime_until_20170101: "strptime_until ''20170101T0000'' = Inr (mk_datetime 2017 1 1 0 0 0)"
  unfolding strptime_until_def by (simp add: regex_defs) (simp add: value_defs mk_datetime_def)

lemma search_longer_value:
  "re_search_until ''RRULE:FREQ=WEEKLY;UNTIL=20170317T083000ZZ'' = Some ''20170317T083000Z''"
  by (simp add: match_until_def until_form_def is_digit_def)

lemma search_second_until:
  "re_search_until ''RRULE:FREQ=WEEKLY;UNTIL=20170317;X-UNTIL=20170101T000000Z''
     = Some ''20170101T000000Z''"
  by (simp add: match_until_def until_form_def is_digit_def)

lemma until_value_examples:
  "until_value ''RRULE:FREQ=WEEKLY;UNTIL=20170317T083000ZZ'' = Some ''20170317T083000ZZ''"
  "until_value ''RRULE:FREQ=WEEKLY;UNTIL=20170317;X-UNTIL=20170101T000000Z'' = Some ''20170317''"
  "until_value ''RRULE:FREQ=WEEKLY;UNTIL=20170317'' = Some ''20170317''"
  by (simp_all add: until_value_def)

lemma lt_d: "datetime_lt (mk_datetime 2017 1 1 0 0 0) (mk_datetime 2017 3 18 0 0 0)"
  by (simp add: datetime_lt_def dt_tuple_def mk_datetime_def)

section \<open>Classification of a recurring series (C1)\<close>

text \<open>
  C1, as amended. For an event with a \<open>recurrence\<close> field, \<open>_event_is_passed\<close>
  returns true if and only if some rule contains \<open>RRULE\<close> and an UNTIL of the form
  \<open>YYYYMMDDTHHMMSSZ\<close> whose first 13 characters, parsed as \<open>%Y%m%dT%H%M\<close>, denote an
  instant strictly before \<open>time_max\<close>, and no rule before it has an UNTIL that fails to
  parse (the scan goes in order, takes the leftmost UNTIL of a rule, and a failing parse
  raises). When no rule has a failing UNTIL, the result is exactly "some rule has its
  UNTIL before \<open>time_max\<close>". A series with no UNTIL in any rule is never classified
  passed, for any \<open>time_max\<close>. A series whose only rule is a weekly rule until the
  instant \<open>u\<close> is passed exactly when \<open>u\<close>, with its seconds dropped, is before
  \<open>time_max\<close>.
\<close>

theorem C1_recurring_passed:
  assumes "ev_recurrence ev = Some recs"
  shows "(event_is_passed ev tmax = Inr True \<longleftrightarrow>
           (\<exists>pre r post. recs = pre @ r # post \<and> rule_before r tmax
              \<and> (\<forall>p\<in>set pre. \<not> rule_raises p)))
         \<and> ((\<forall>r\<in>set recs. \<not> rule_raises r) \<longrightarrow>
              event_is_passed ev tmax = Inr (claimed_passed recs tmax))
         \<and> ((\<forall>r\<in>set recs. re_search_until r = None) \<longrightarrow> event_is_passed ev tmax = Inr False)
         \<and> (valid_datetime u \<and> dt_microsecond u = 0 \<and> recs = [weekly_until u] \<longrightarrow>
              event_is_passed ev tmax = Inr (datetime_lt (u\<lparr>dt_second := 0\<rparr>) tmax))"
proof -
  have e: "event_is_passed ev tmax = recurrence_passed recs tmax"
    using assms by (simp add: event_is_passed_def)
  have a: "event_is_passed ev tmax = Inr True \<longleftrightarrow>
           (\<exists>pre r post. recs = pre @ r # post \<and> rule_before r tmax
              \<and> (\<forall>p\<in>set pre. \<not> rule_raises p))"
    unfolding e by (rule recurrence_passed_True_iff)
  have b: "(\<forall>r\<in>set recs. \<not> rule_raises r) \<longrightarrow>
              event_is_passed ev tmax = Inr (claimed_passed recs tmax)"
    unfolding e claimed_passed_def by (simp add: recurrence_passed_total)
  have c: "(\<forall>r\<in>set recs. re_search_until r = None) \<longrightarrow> event_is_passed ev tmax = Inr False"
    unfolding e by (simp add: recurrence_passed_no_match)
  have d: "valid_datetime u \<and> dt_microsecond u = 0 \<and> recs = [weekly_until u] \<longrightarrow>
              event_is_passed ev tmax = Inr (datetime_lt (u\<lparr>dt_second := 0\<rparr>) tmax)"
  proof -
    have n: "recurrence_passed [] tmax = Inr False" by simp
    show ?thesis
      unfolding e using n
      by (simp add: recurrence_passed_Cons rule_until_weekly del: recurrence_passed.simps)
  qed
  from a b c d show ?thesis by blast
qed

text \<open>
  The example of the specification: UNTIL=20170317T083000Z is passed for
  \<open>time_max\<close> = 2017-03-18 and not passed for 2017-03-01. A series until 08:30:59
  is passed at 08:30:30 of that day, since the seconds of the UNTIL are dropped.
\<close>

theorem C1_recurring_passed_witness:
  "ev_recurrence (series_event [''RRULE:FREQ=WEEKLY;UNTIL=20170317T083000Z''])
     = Some [''RRULE:FREQ=WEEKLY;UNTIL=20170317T083000Z'']
   \<and> event_is_passed (series_event [''RRULE:FREQ=WEEKLY;UNTIL=20170317T083000Z''])
        (mk_datetime 2017 3 18 0 0 0) = Inr True
   \<and> event_is_passed (series_event [''RRULE:FREQ=WEEKLY;UNTIL=20170317T083000Z''])
        (mk_datetime 2017 3 1 0 0 0) = Inr False
   \<and> event_is_passed (series_event [weekly_until (mk_datetime 2017 3 17 8 30 59)])
        (mk_datetime 2017 3 17 8 30 30) = Inr True"
proof -
  let ?r = "''RRULE:FREQ=WEEKLY;UNTIL=20170317T083000Z''"
  have r: "ev_recurrence (series_event [?r]) = Some [?r]"
    by (simp add: series_event_def)
  have nr: "\<forall>p\<in>set [?r]. \<not> rule_raises p"
    by (simp add: rule_raises_def rule_until_20170317)
  have c1: "claimed_passed [?r] (mk_datetime 2017 3 18 0 0 0)"
    by (simp add: claimed_passed_def rule_before_def rule_until_20170317 lt_a)
  have c2: "\<not> claimed_passed [?r] (mk_datetime 2017 3 1 0 0 0)"
    using lt_b by (simp add: claimed_passed_def rule_before_def rule_until_20170317)
  from C1_recurring_passed [OF r, of "mk_datetime 2017 3 18 0 0 0"] nr c1
  have a: "event_is_passed (series_event [?r]) (mk_datetime 2017 3 18 0 0 0) = Inr True"
    by simp
  from C1_recurring_passed [OF r, of "mk_datetime 2017 3 1 0 0 0"] nr c2
  have b: "event_is_passed (series_event [?r]) (mk_datetime 2017 3 1 0 0 0) = Inr False"
    by simp
  let ?u = "mk_datetime 2017 3 17 8 30 59"
  have ru: "ev_recurrence (series_event [weekly_until ?u]) = Some [weekly_until ?u]"
    by (simp add: series_event_def)
  have vu: "valid_datetime ?u \<and> dt_microsecond ?u = 0"
    by (simp add: valid_datetime_def mk_datetime_def days_in_month_def)
  have lu: "datetime_lt (?u\<lparr>dt_second := 0\<rparr>) (mk_datetime 2017 3 17 8 30 30)"
    by (simp add: datetime_lt_def dt_tuple_def mk_datetime_def)
  from C1_recurring_passed [OF ru, of "mk_datetime 2017 3 17 8 30 30" ?u] vu lu
  have c: "event_is_passed (series_event [weekly_until ?u]) (mk_datetime 2017 3 17 8 30 30)
             = Inr True"
    by simp
  from r a b c show ?thesis by simp
qed

text \<open>
  C1 as first stated fails: here the second rule has an UNTIL before \<open>time_max\<close>, but
  the first rule's UNTIL is the 30th of February, \<open>strptime\<close> raises \<open>ValueError\<close>, and
  the function does not return.
\<close>

theorem C1_counterexample:
  "ev_recurrence (series_event [''RRULE:FREQ=WEEKLY;UNTIL=20170230T083000Z'',
                                ''RRULE:FREQ=WEEKLY;UNTIL=20170317T083000Z''])
     = Some [''RRULE:FREQ=WEEKLY;UNTIL=20170230T083000Z'',
             ''RRULE:FREQ=WEEKLY;UNTIL=20170317T083000Z'']
   \<and> claimed_passed [''RRULE:FREQ=WEEKLY;UNTIL=20170230T083000Z'',
                      ''RRULE:FREQ=WEEKLY;UNTIL=20170317T083000Z''] (mk_datetime 2017 3 18 0 0 0)
   \<and> event_is_passed (series_event [''RRULE:FREQ=WEEKLY;UNTIL=20170230T083000Z'',
                                    ''RRULE:FREQ=WEEKLY;UNTIL=20170317T083000Z''])
        (mk_datetime 2017 3 18 0 0 0) = Inl ValueError"
  by (simp add: series_event_def claimed_passed_def rule_before_def event_is_passed_def
      recurrence_passed_Cons rule_until_20170317 rule_until_20170230 lt_a
      del: recurrence_passed.simps)

section \<open>Classification of a single event (C2)\<close>

text \<open>
  C2. For an event without a \<open>recurrence\<close> field, \<open>_event_is_passed\<close> returns true
  if and only if the event has an end instant (the first 19 characters of \<open>dateTime\<close>
  parsed with \<open>%Y-%m-%dT%H:%M:%S\<close>, or the all-day \<open>date\<close> parsed with
  \<open>%Y-%m-%d\<close>) and that instant is strictly before \<open>time_max\<close>; it returns false if
  and only if the end instant exists and is not before \<open>time_max\<close>. In particular
  an event whose end is the date-time \<open>d1\<close>, printed by \<open>isoformat\<close> and followed by
  any time zone, or the all-day date \<open>d1\<close>, is passed when \<open>d1\<close> is before
  \<open>time_max\<close> and not passed otherwise.
\<close>

theorem C2_single_event_passed:
  assumes "ev_recurrence ev = None"
  shows "(event_is_passed ev tmax = Inr True \<longleftrightarrow>
            (\<exists>d. end_instant ev = Some d \<and> datetime_lt d tmax))
         \<and> (event_is_passed ev tmax = Inr False \<longleftrightarrow>
            (\<exists>d. end_instant ev = Some d \<and> \<not> datetime_lt d tmax))
         \<and> (valid_datetime d1 \<and> dt_microsecond d1 = 0
              \<and> ev_end ev = Some (at_time (isoformat d1 @ zone)) \<longrightarrow>
              event_is_passed ev tmax = Inr (datetime_lt d1 tmax))
         \<and> (valid_datetime d1 \<and> dt_hour d1 = 0 \<and> dt_minute d1 = 0 \<and> dt_second d1 = 0
              \<and> dt_microsecond d1 = 0 \<and> ev_end ev = Some (on_day (isoformat_date d1)) \<longrightarrow>
              event_is_passed ev tmax = Inr (datetime_lt d1 tmax))"
proof -
  have a: "(event_is_passed ev tmax = Inr True \<longleftrightarrow>
            (\<exists>d. end_instant ev = Some d \<and> datetime_lt d tmax))
         \<and> (event_is_passed ev tmax = Inr False \<longleftrightarrow>
            (\<exists>d. end_instant ev = Some d \<and> \<not> datetime_lt d tmax))"
    using assms
    by (auto simp: event_is_passed_def get_datetime_def event_at_def end_instant_def
        split: option.splits sum.splits)
  have b: "event_is_passed ev tmax = Inr (datetime_lt d1 tmax)"
    if "valid_datetime d1" and "dt_microsecond d1 = 0"
      and "ev_end ev = Some (at_time (isoformat d1 @ zone))"
    using assms that strptime_datetime_isoformat_zone [OF that(1,2), of zone]
    by (simp add: event_is_passed_def get_datetime_def event_at_def at_time_def)
  have c: "event_is_passed ev tmax = Inr (datetime_lt d1 tmax)"
    if "valid_datetime d1" and "dt_hour d1 = 0" and "dt_minute d1 = 0" and "dt_second d1 = 0"
      and "dt_microsecond d1 = 0" and "ev_end ev = Some (on_day (isoformat_date d1))"
    using assms that strptime_date_isoformat [OF that(1-5)]
    by (simp add: event_is_passed_def get_datetime_def event_at_def on_day_def)
  from a b c show ?thesis by blast
qed

text \<open>
  A timed event that ends on 2017-03-17 at 08:30 is passed for \<open>time_max\<close> =
  2017-03-18 and not for \<open>time_max\<close> = 2017-03-17 08:30; an all-day event of
  2017-03-17 is passed for 2017-03-18; an event that ends in the last second of
  2016-02-29 is passed on 2016-03-01.
\<close>

theorem C2_single_event_passed_witness:
  "ev_recurrence (single_event ''E1'' (at_time ''2017-03-17T08:00:00+01:00'')
                    (at_time ''2017-03-17T08:30:00+01:00'')) = None
   \<and> event_is_passed (single_event ''E1'' (at_time ''2017-03-17T08:00:00+01:00'')
                        (at_time ''2017-03-17T08:30:00+01:00''))
        (mk_datetime 2017 3 18 0 0 0) = Inr True
   \<and> event_is_passed (single_event ''E1'' (at_time ''2017-03-17T08:00:00+01:00'')
                        (at_time ''2017-03-17T08:30:00+01:00''))
        (mk_datetime 2017 3 17 8 30 0) = Inr False
   \<and> event_is_passed (single_event ''E3'' (on_day ''2017-03-17'') (on_day ''2017-03-17''))
        (mk_datetime 2017 3 18 0 0 0) = Inr True
   \<and> event_is_passed
        (single_event ''E4'' (at_time (isoformat (mk_datetime 2016 2 29 23 0 0) @ ''Z''))
           (at_time (isoformat (mk_datetime 2016 2 29 23 59 59) @ ''Z'')))
        (mk_datetime 2016 3 1 0 0 0) = Inr True"
proof -
  let ?e = "single_event ''E1'' (at_time ''2017-03-17T08:00:00+01:00'')
              (at_time ''2017-03-17T08:30:00+01:00'')"
  let ?f = "single_event ''E3'' (on_day ''2017-03-17'') (on_day ''2017-03-17'')"
  have r: "ev_recurrence ?e = None" and r': "ev_recurrence ?f = None"
    by (simp_all add: single_event_def)
  have i: "end_instant ?e = Some (mk_datetime 2017 3 17 8 30 0)"
    by (simp add: end_instant_def single_event_def at_time_def strptime_datetime_20170317)
  have i': "end_instant ?f = Some (mk_datetime 2017 3 17 0 0 0)"
    by (simp add: end_instant_def single_event_def on_day_def strptime_date_20170317)
  have n: "\<not> datetime_lt (mk_datetime 2017 3 17 8 30 0) (mk_datetime 2017 3 17 8 30 0)"
    by (simp add: datetime_lt_def dt_tuple_def mk_datetime_def)
  have a: "event_is_passed ?e (mk_datetime 2017 3 18 0 0 0) = Inr True"
    using C2_single_event_passed [OF r, of "mk_datetime 2017 3 18 0 0 0"] i lt_a by simp
  have b: "event_is_passed ?e (mk_datetime 2017 3 17 8 30 0) = Inr False"
    using C2_single_event_passed [OF r, of "mk_datetime 2017 3 17 8 30 0"] i n by simp
  have c: "event_is_passed ?f (mk_datetime 2017 3 18 0 0 0) = Inr True"
    using C2_single_event_passed [OF r', of "mk_datetime 2017 3 18 0 0 0"] i' lt_c by simp
  let ?d = "mk_datetime 2016 2 29 23 59 59"
  let ?g = "single_event ''E4'' (at_time (isoformat (mk_datetime 2016 2 29 23 0 0) @ ''Z''))
              (at_time (isoformat ?d @ ''Z''))"
  have rg: "ev_recurrence ?g = None" and eg: "ev_end ?g = Some (at_time (isoformat ?d @ ''Z''))"
    by (simp_all add: single_event_def)
  have vd: "valid_datetime ?d \<and> dt_microsecond ?d = 0"
    by (simp add: valid_datetime_def mk_datetime_def days_in_month_def is_leap_def)
  have ld: "datetime_lt ?d (mk_datetime 2016 3 1 0 0 0)"
    by (simp add: datetime_lt_def dt_tuple_def mk_datetime_def)
  from C2_single_event_passed [OF rg, of "mk_datetime 2016 3 1 0 0 0" ?d "''Z''"] vd eg ld
  have g: "event_is_passed ?g (mk_datetime 2016 3 1 0 0 0) = Inr True"
    by simp
  from r a b c g show ?thesis by simp
qed

section \<open>Calling the deletion twice (C3)\<close>

text \<open>
  C3, as amended. When a deletion attempt for an identifier ends with DELETED (the
  request succeeded, or the run is a simulation), the identifier is in the set
  afterwards, and a second call with the same identifier is a no-op: it returns with the
  state unchanged, so no request is sent and nothing is printed, and the two calls
  together sent at most one \<open>delete\<close> request. In a whole run no identifier is
  deleted by the service twice: the \<open>delete\<close> requests that succeeded have distinct
  identifiers. Nothing is said of an attempt that ended ALREADY DELETED or FAILED: it
  leaves the identifier out of the set.
\<close>

theorem C3_second_call_noop:
  assumes "ev_id ev = Some i" and "ev_id ev' = Some i" and "i \<notin> deleted_events st"
    and "attempt_result svc cfg st i = ''DELETED''"
  shows "i \<in> deleted_events (snd (delete_event svc cfg st ev))
         \<and> delete_event svc cfg (snd (delete_event svc cfg st ev)) ev'
             = (Inr (), snd (delete_event svc cfg st ev))
         \<and> calls (snd (delete_event svc cfg st ev))
             = calls st @ (if confirm_delete cfg then [sent_delete i] else [])
         \<and> (\<forall>n r st'. delete_events n svc cfg init_state = Some (r, st') \<longrightarrow>
               distinct (really_deleted svc st'))"
proof -
  let ?st1 = "snd (delete_event svc cfg st ev)"
  have s: "deleted_events ?st1 = insert i (deleted_events st)
           \<and> calls ?st1 = calls st @ (if confirm_delete cfg then [sent_delete i] else [])"
  proof (cases "confirm_delete cfg")
    case False
    from delete_event_state [OF delete_try_simulation [OF assms(1,3) False]] False
    show ?thesis by simp
  next
    case True
    have "answer_delete svc st i = None"
    proof (cases "answer_delete svc st i")
      case None
      then show ?thesis .
    next
      case (Some err)
      with assms(4) True show ?thesis
        by (cases "err = HttpError 410") (simp_all add: attempt_result_def)
    qed
    from delete_event_state [OF delete_try_deleted [OF assms(1,3) True this]] True
    show ?thesis by simp
  qed
  then have m: "i \<in> deleted_events ?st1" by simp
  have o: "distinct (really_deleted svc st')"
    if "delete_events n svc cfg init_state = Some (r, st')" for n r st'
    using page_loop_once [OF _ init_deleted_once, of n svc cfg None r st'] that
    by (simp add: delete_events_def deleted_once_def)
  from delete_event_skip [OF assms(2) m] m s o show ?thesis by blast
qed

text \<open>
  Two calls in confirmed mode with a service that deletes: one request. In the confirmed
  run of the end-to-end example the service deletes three distinct identifiers.
\<close>

theorem C3_second_call_noop_witness:
  "delete_event ok_service (example_config True)
     (snd (delete_event ok_service (example_config True) init_state e1)) e1
     = (Inr (), snd (delete_event ok_service (example_config True) init_state e1))
   \<and> calls (snd (delete_event ok_service (example_config True) init_state e1))
       = [sent_delete ''E1'']
   \<and> (case delete_events 2 (two_page_service (\<lambda>i. None)) (example_config True) init_state of
        Some (Inr u, st') \<Rightarrow>
          really_deleted (two_page_service (\<lambda>i. None)) st' = [''E1'', ''R'', ''E2'']
          \<and> distinct (really_deleted (two_page_service (\<lambda>i. None)) st')
      | _ \<Rightarrow> False)"
proof -
  have n: "''E1'' \<notin> deleted_events init_state" by (simp add: init_state_simps)
  have r: "attempt_result ok_service (example_config True) init_state ''E1'' = ''DELETED''"
    by (simp add: attempt_result_def example_config_simps ok_service_def answer_delete_fixed)
  let ?svc = "two_page_service (\<lambda>i. None)"
  let ?S = "\<lparr>deleted_events = {''E1'', ''R'', ''E2''},
        stdout = [PrintLine (status_line ''DELETED'' (mk_datetime 2017 3 17 8 0 0) e1),
                  PrintLine (status_line ''DELETED'' (mk_datetime 2017 1 6 8 0 0) series_r),
                  PrintLine (status_line ''DELETED'' (mk_datetime 2017 3 17 8 0 0) e2)],
        calls = [ListCall (list_request_of (example_config True) None),
                 sent_delete ''E1'',
                 ListCall (list_request_of (example_config True) (Some ''T'')),
                 GetCall ''primary'' ''R'',
                 sent_delete ''R'',
                 sent_delete ''E2'']\<rparr>"
  have t: "delete_events 2 ?svc (example_config True) init_state = Some (Inr (), ?S)"
    by (rule two_page_confirmed)
  have v: "really_deleted ?svc ?S = [''E1'', ''R'', ''E2'']"
    by (simp add: really_deleted_def sent_delete_def two_page_service_def fixed_service_def)
  from C3_second_call_noop [OF e1_fields(1) e1_fields(1) n r]
  have a: "delete_event ok_service (example_config True)
             (snd (delete_event ok_service (example_config True) init_state e1)) e1
             = (Inr (), snd (delete_event ok_service (example_config True) init_state e1))"
    and b: "calls (snd (delete_event ok_service (example_config True) init_state e1))
              = [sent_delete ''E1'']"
    by (simp_all add: example_config_simps init_state_simps)
  from C3_second_call_noop [OF e2_fields(1) e2_fields(1), of init_state ?svc "example_config True"] t
  have c: "distinct (really_deleted ?svc ?S)"
    by (simp add: init_state_simps attempt_result_def example_config_simps answer_delete_def
        two_page_service_def fixed_service_def)
  from a b c t v show ?thesis by simp
qed

text \<open>
  C3 as first stated fails: with a service that answers 500, the first call ends FAILED
  and leaves the set as it was, and the second call sends the request again.
\<close>

theorem C3_counterexample:
  "ev_id e1 = Some ''E1''
   \<and> calls (snd (delete_event failing_service (example_config True)
               (snd (delete_event failing_service (example_config True) init_state e1)) e1))
       = [sent_delete ''E1'', sent_delete ''E1'']"
proof -
  let ?st1 = "init_state\<lparr>calls := [sent_delete ''E1''], stdout := [PrintError (HttpError 500)]\<rparr>"
  have c: "confirm_delete (example_config True)" by (simp add: example_config_simps)
  have n: "''E1'' \<notin> deleted_events init_state" by (simp add: init_state_simps)
  have f: "answer_delete failing_service s ''E1'' = Some (HttpError 500)" for s
    by (simp add: failing_service_def answer_delete_fixed)
  have d: "HttpError 500 \<noteq> HttpError 410" by simp
  have t1: "delete_try failing_service (example_config True) init_state e1 =
              (Result ''FAILED '', ?st1)"
    using delete_try_failed [OF e1_fields(1) n c f d] by (simp add: init_state_simps)
  from delete_event_result [OF t1 e1_fields(4)]
  have s1: "snd (delete_event failing_service (example_config True) init_state e1) =
              ?st1\<lparr>stdout := stdout ?st1
                 @ [PrintLine (status_line ''FAILED '' (mk_datetime 2017 3 17 8 0 0) e1)]\<rparr>"
    (is "_ = ?st2")
    by simp
  have n2: "''E1'' \<notin> deleted_events ?st2" by (simp add: init_state_simps)
  from delete_event_state [OF delete_try_failed [OF e1_fields(1) n2 c f d]]
  have "calls (snd (delete_event failing_service (example_config True) ?st2 e1))
          = [sent_delete ''E1'', sent_delete ''E1'']"
    by (simp add: init_state_simps)
  with s1 e1_fields(1) show ?thesis by simp
qed

section \<open>A deletion request that raises (C4)\<close>

text \<open>
  C4, as amended. In confirmed mode, for an identifier that is not in the set and an
  event whose \<open>start\<close> parses: when the \<open>delete\<close> request raises, a 410 gives the
  status line ALREADY DELETED and prints no exception, any other exception is printed
  and gives the status line FAILED; in both cases \<open>_delete_event\<close> returns normally,
  and the loop over the page goes on with the remaining events. (The status line is
  built after the handlers, so an event whose \<open>start\<close> does not parse raises out of
  \<open>_delete_event\<close> whatever the request did.)
\<close>

theorem C4_delete_error_mapping:
  assumes "ev_id ev = Some i" and "i \<notin> deleted_events st" and "confirm_delete cfg"
    and "answer_delete svc st i = Some err" and "get_datetime ev Start = Inr d"
  shows "delete_event svc cfg st ev =
           (Inr (),
            st\<lparr>calls := calls st @ [sent_delete i],
               stdout := stdout st @
                 (if err = HttpError 410 then [PrintLine (status_line ''ALREADY DELETED'' d ev)]
                  else [PrintError err, PrintLine (status_line ''FAILED '' d ev)])\<rparr>)
         \<and> (\<not> is_recurrent ev \<and> event_is_passed ev (time_max cfg) = Inr True \<longrightarrow>
              process_items svc cfg st (ev # evs) =
                process_items svc cfg (snd (delete_event svc cfg st ev)) evs)"
proof -
  have a: "delete_event svc cfg st ev =
           (Inr (),
            st\<lparr>calls := calls st @ [sent_delete i],
               stdout := stdout st @
                 (if err = HttpError 410 then [PrintLine (status_line ''ALREADY DELETED'' d ev)]
                  else [PrintError err, PrintLine (status_line ''FAILED '' d ev)])\<rparr>)"
  proof (cases "err = HttpError 410")
    case True
    with assms have "delete_try svc cfg st ev =
        (Result ''ALREADY DELETED'', st\<lparr>calls := calls st @ [sent_delete i]\<rparr>)"
      by (simp add: delete_try_gone)
    from delete_event_result [OF this assms(5)] True show ?thesis by simp
  next
    case False
    with assms have "delete_try svc cfg st ev =
        (Result ''FAILED '',
         st\<lparr>calls := calls st @ [sent_delete i], stdout := stdout st @ [PrintError err]\<rparr>)"
      by (simp add: delete_try_failed)
    from delete_event_result [OF this assms(5)] False show ?thesis by simp
  qed
  have b: "\<not> is_recurrent ev \<and> event_is_passed ev (time_max cfg) = Inr True \<longrightarrow>
             process_items svc cfg st (ev # evs) =
               process_items svc cfg (snd (delete_event svc cfg st ev)) evs"
    using a by (simp add: process_event_def process_parent_def delete_if_passed_def)
  from a b show ?thesis by blast
qed

text \<open>
  The single event with a service that answers 410, and with one that answers 500.
\<close>

theorem C4_delete_error_mapping_witness:
  "delete_event gone_service (example_config True) init_state e1 =
     (Inr (),
      init_state\<lparr>calls := [sent_delete ''E1''],
        stdout := [PrintLine (status_line ''ALREADY DELETED'' (mk_datetime 2017 3 17 8 0 0) e1)]\<rparr>)
   \<and> delete_event failing_service (example_config True) init_state e1 =
     (Inr (),
      init_state\<lparr>calls := [sent_delete ''E1''],
        stdout := [PrintError (HttpError 500),
                   PrintLine (status_line ''FAILED '' (mk_datetime 2017 3 17 8 0 0) e1)]\<rparr>)"
proof -
  have g: "answer_delete gone_service init_state ''E1'' = Some (HttpError 410)"
    by (simp add: gone_service_def answer_delete_fixed)
  have f: "answer_delete failing_service init_state ''E1'' = Some (HttpError 500)"
    by (simp add: failing_service_def answer_delete_fixed)
  have n: "''E1'' \<notin> deleted_events init_state" by (simp add: init_state_simps)
  have c: "confirm_delete (example_config True)" by (simp add: example_config_simps)
  from C4_delete_error_mapping [OF e1_fields(1) n c g e1_fields(4)]
       C4_delete_error_mapping [OF e1_fields(1) n c f e1_fields(4)]
  show ?thesis by (simp add: init_state_simps)
qed

text \<open>
  C4 as first stated fails: the request raises 410 for an event that has no
  \<open>start\<close>, and \<open>_delete_event\<close> raises \<open>KeyError\<close> instead of returning.
\<close>

theorem C4_counterexample:
  "confirm_delete (example_config True)
   \<and> answer_delete gone_service init_state ''E1'' = Some (HttpError 410)
   \<and> ev_id e_no_start = Some ''E1''
   \<and> fst (delete_event gone_service (example_config True) init_state e_no_start)
       = Inl (KeyError ''start'')"
proof -
  have g: "answer_delete gone_service init_state ''E1'' = Some (HttpError 410)"
    by (simp add: gone_service_def answer_delete_fixed)
  have n: "''E1'' \<notin> deleted_events init_state" by (simp add: init_state_simps)
  have c: "confirm_delete (example_config True)" by (simp add: example_config_simps)
  from delete_event_raises [OF delete_try_gone [OF e_no_start_fields(1) n c g] e_no_start_fields(2)]
  show ?thesis using g c e_no_start_fields(1) by simp
qed

section \<open>The set and the status line of an attempt (C5)\<close>

text \<open>
  C5, as amended. For an identifier that is not in the set and an event whose
  \<open>start\<close> parses, \<open>_delete_event\<close> returns normally and prints exactly one status
  line \<open>{result} - {event_date} - {recurrent_tag}{summary}\<close>, after the exception it
  may have printed, with a result among \<open>DELETED\<close>, \<open>ALREADY DELETED\<close> and \<open>FAILED\<close>
  (which the program pads with a blank), in confirmed and in simulation mode. The
  identifier is added to the set exactly when the result is DELETED; after ALREADY
  DELETED and FAILED the set is as it was. A request is sent in confirmed mode only.
\<close>

theorem C5_attempt_status_line:
  assumes "ev_id ev = Some i" and "i \<notin> deleted_events st" and "get_datetime ev Start = Inr d"
  shows "delete_event svc cfg st ev =
           (Inr (),
            st\<lparr>calls := calls st @ (if confirm_delete cfg then [sent_delete i] else []),
               deleted_events :=
                 (if attempt_result svc cfg st i = ''DELETED'' then insert i (deleted_events st)
                  else deleted_events st),
               stdout := stdout st @ attempt_log svc cfg st i
                         @ [PrintLine (status_line (attempt_result svc cfg st i) d ev)]\<rparr>)
         \<and> (attempt_result svc cfg st i = ''DELETED''
              \<or> attempt_result svc cfg st i = ''ALREADY DELETED''
              \<or> attempt_result svc cfg st i = ''FAILED '')
         \<and> filter is_status (attempt_log svc cfg st i) = []"
proof -
  have l: "filter is_status (attempt_log svc cfg st i) = []"
    by (cases "confirm_delete cfg"; cases "answer_delete svc st i")
      (simp_all add: attempt_log_def is_status_def)
  have r: "attempt_result svc cfg st i = ''DELETED''
              \<or> attempt_result svc cfg st i = ''ALREADY DELETED''
              \<or> attempt_result svc cfg st i = ''FAILED ''"
    by (cases "confirm_delete cfg"; cases "answer_delete svc st i")
      (simp_all add: attempt_result_def)
  from delete_event_attempt [OF assms] r l show ?thesis by blast
qed

text \<open>
  The single event in simulation mode.
\<close>

theorem C5_attempt_status_line_witness:
  "delete_event ok_service (example_config False) init_state e1 =
     (Inr (), init_state\<lparr>deleted_events := {''E1''},
                stdout := [PrintLine ''DELETED - 2017-03-17 08:00:00 - Dentist'']\<rparr>)"
proof -
  have n: "''E1'' \<notin> deleted_events init_state" by (simp add: init_state_simps)
  have r: "attempt_result ok_service (example_config False) init_state ''E1'' = ''DELETED''"
    by (simp add: attempt_result_def example_config_simps)
  have l: "attempt_log ok_service (example_config False) init_state ''E1'' = []"
    by (simp add: attempt_log_def example_config_simps)
  from C5_attempt_status_line [OF e1_fields(1) n e1_fields(4), of ok_service "example_config False"]
  show ?thesis
    by (simp add: r l example_config_simps init_state_simps status_line_e1)
qed

text \<open>
  C5 as first stated fails: the request raises 410, the attempt ends ALREADY DELETED, and
  the identifier is not in the set afterwards.
\<close>

theorem C5_counterexample:
  "ev_id e1 = Some ''E1''
   \<and> ''E1'' \<notin> deleted_events init_state
   \<and> fst (delete_event gone_service (example_config True) init_state e1) = Inr ()
   \<and> ''E1'' \<notin> deleted_events (snd (delete_event gone_service (example_config True) init_state e1))"
proof -
  have g: "answer_delete gone_service init_state ''E1'' = Some (HttpError 410)"
    by (simp add: gone_service_def answer_delete_fixed)
  have n: "''E1'' \<notin> deleted_events init_state" by (simp add: init_state_simps)
  have c: "confirm_delete (example_config True)" by (simp add: example_config_simps)
  from delete_event_result [OF delete_try_gone [OF e1_fields(1) n c g] e1_fields(4)]
  show ?thesis using e1_fields(1) by (simp add: init_state_simps)
qed

section \<open>Simulation mode (C6)\<close>

text \<open>
  C6, as amended. In simulation mode a sweep sends no \<open>delete\<close> request, whatever
  the service answers. The classification does not depend on the mode. When the service
  answers every \<open>delete\<close> request with success and its answers to \<open>list\<close> and
  \<open>get\<close> requests do not depend on the \<open>delete\<close> requests it has received, the
  simulation and the confirmed run from the initial state are both still running after
  \<open>n\<close> rounds or have both ended, with the same result, the same output and the same
  set, hence the same final count. Nothing is said of a confirmed run in which a
  \<open>delete\<close> request fails or changes a later answer.
\<close>

theorem C6_simulation_mode:
  "(\<not> confirm_delete cfg \<longrightarrow>
      (\<forall>r st'. delete_events n svc cfg st = Some (r, st') \<longrightarrow>
         filter is_delete_call (calls st') = filter is_delete_call (calls st)))
   \<and> (always_deletes svc \<and> blind_to_deletes svc \<longrightarrow>
        same_outcome (delete_events n svc (simulated cfg) init_state)
          (delete_events n svc (confirmed cfg) init_state))"
proof -
  have "same_but_deletes init_state init_state"
    by (simp add: same_but_deletes_def init_state_def other_calls_def)
  then have "same_outcome (delete_events n svc (simulated cfg) init_state)
          (delete_events n svc (confirmed cfg) init_state)"
    if "always_deletes svc" and "blind_to_deletes svc"
    unfolding delete_events_def using that by (intro page_loop_same)
  then show ?thesis
    unfolding delete_events_def using simulation_sends_no_delete by blast
qed

text \<open>
  The end-to-end example: no \<open>delete\<close> request and a count of 3 in simulation mode,
  and the same outcome as the confirmed run.
\<close>

theorem C6_simulation_mode_witness:
  "(case delete_events 2 (two_page_service (\<lambda>i. None)) (example_config False) init_state of
      Some (Inr u, st') \<Rightarrow> filter is_delete_call (calls st') = [] \<and> final_count st' = 3
    | _ \<Rightarrow> False)
   \<and> same_outcome
        (delete_events 2 (two_page_service (\<lambda>i. None)) (example_config False) init_state)
        (delete_events 2 (two_page_service (\<lambda>i. None)) (example_config True) init_state)"
proof -
  let ?svc = "two_page_service (\<lambda>i. None)"
  let ?S = "\<lparr>deleted_events = {''E1'', ''R'', ''E2''},
        stdout = [PrintLine (status_line ''DELETED'' (mk_datetime 2017 3 17 8 0 0) e1),
                  PrintLine (status_line ''DELETED'' (mk_datetime 2017 1 6 8 0 0) series_r),
                  PrintLine (status_line ''DELETED'' (mk_datetime 2017 3 17 8 0 0) e2)],
        calls = [ListCall (list_request_of (example_config False) None),
                 ListCall (list_request_of (example_config False) (Some ''T'')),
                 GetCall ''primary'' ''R'']\<rparr>"
  have r: "delete_events 2 ?svc (example_config False) init_state = Some (Inr (), ?S)"
    by (rule two_page_simulation)
  have a: "always_deletes ?svc"
    by (simp add: always_deletes_def two_page_service_def fixed_service_def)
  have b: "blind_to_deletes ?svc"
    by (simp add: two_page_service_def fixed_service_blind)
  have n: "\<not> confirm_delete (example_config False)" by (simp add: example_config_simps)
  from C6_simulation_mode [of "example_config False" 2 ?svc init_state] n r
  have "filter is_delete_call (calls ?S) = filter is_delete_call (calls init_state)" by blast
  then have c: "filter is_delete_call (calls ?S) = []" by (simp add: init_state_def)
  have d: "final_count ?S = 3" by (simp add: final_count_def)
  from C6_simulation_mode [of "example_config False" 2 ?svc init_state] a b
  have "same_outcome (delete_events 2 ?svc (example_config False) init_state)
          (delete_events 2 ?svc (example_config True) init_state)"
    by (simp add: example_modes)
  with r c d show ?thesis by simp
qed

text \<open>
  C6 as first stated fails: with a service that answers the \<open>delete\<close> request with
  410, the simulation prints DELETED and counts one event, and the confirmed run prints
  ALREADY DELETED and counts none.
\<close>

theorem C6_counterexample:
  "delete_events 1 (single_page_service (\<lambda>i. Some (HttpError 410))) (example_config False)
     init_state =
     Some (Inr (),
       \<lparr>deleted_events = {''E1''},
        stdout = [PrintLine (status_line ''DELETED'' (mk_datetime 2017 3 17 8 0 0) e1)],
        calls = [ListCall (list_request_of (example_config False) None)]\<rparr>)
   \<and> delete_events 1 (single_page_service (\<lambda>i. Some (HttpError 410))) (example_config True)
       init_state =
     Some (Inr (),
       \<lparr>deleted_events = {},
        stdout = [PrintLine (status_line ''ALREADY DELETED'' (mk_datetime 2017 3 17 8 0 0) e1)],
        calls = [ListCall (list_request_of (example_config True) None), sent_delete ''E1'']\<rparr>)
   \<and> \<not> same_outcome
        (delete_events 1 (single_page_service (\<lambda>i. Some (HttpError 410)))
           (example_config False) init_state)
        (delete_events 1 (single_page_service (\<lambda>i. Some (HttpError 410)))
           (example_config True) init_state)"
proof -
  let ?svc = "single_page_service (\<lambda>i. Some (HttpError 410))"
  have s: "delete_events 1 ?svc (example_config False) init_state =
     Some (Inr (),
       \<lparr>deleted_events = {''E1''},
        stdout = [PrintLine (status_line ''DELETED'' (mk_datetime 2017 3 17 8 0 0) e1)],
        calls = [ListCall (list_request_of (example_config False) None)]\<rparr>)"
    by (simp add: sweep_defs single_page_service_def fixed_service_def
      example_config_simps init_state_def passed_examples e1_fields
      example_attempts attempt_result_def attempt_log_def)
  have c: "delete_events 1 ?svc (example_config True) init_state =
     Some (Inr (),
       \<lparr>deleted_events = {},
        stdout = [PrintLine (status_line ''ALREADY DELETED'' (mk_datetime 2017 3 17 8 0 0) e1)],
        calls = [ListCall (list_request_of (example_config True) None), sent_delete ''E1'']\<rparr>)"
    by (simp add: sweep_defs single_page_service_def fixed_service_def
      example_config_simps init_state_def passed_examples e1_fields
      example_attempts attempt_result_def attempt_log_def answer_delete_def)
  have "\<not> same_outcome (delete_events 1 ?svc (example_config False) init_state)
          (delete_events 1 ?svc (example_config True) init_state)"
    unfolding s c by (simp add: same_outcome_def)
  with s c show ?thesis by simp
qed

section \<open>The page loop (C7)\<close>



section \<open>An instance of a recurring series (C8)\<close>




section \<open>An UNTIL of another form (C9)\<close>

text \<open>
  C9, as amended. The expression is searched anywhere in a rule and reads the 16
  characters after an \<open>UNTIL=\<close>, not the UNTIL value up to its end. It matches in no
  rule of a series exactly when no rule contains \<open>UNTIL=\<close> followed by 16 characters
  of the form \<open>YYYYMMDDTHHMMSSZ\<close>, and then the series is not classified passed,
  whatever \<open>time_max\<close> is. That is the case when every rule has an \<open>UNTIL=\<close> whose
  next 16 characters are not of the form and no second \<open>UNTIL=\<close> after it (the
  date-only form \<open>UNTIL=20170317\<close> for example): the UNTIL value of such a rule is not
  of the form, and it is not matched. A rule in which the expression does not match
  contributes nothing: without it the series is classified the same.
\<close>

theorem C9_unmatched_until_never_passed:
  assumes "ev_recurrence ev = Some recs"
  shows "((\<forall>r\<in>set recs. re_search_until r = None) \<longleftrightarrow>
            (\<forall>r\<in>set recs. \<not> (\<exists>pre g post. r = pre @ ''UNTIL='' @ g @ post \<and> until_form g)))
         \<and> ((\<forall>r\<in>set recs. re_search_until r = None) \<longrightarrow> event_is_passed ev tmax = Inr False)
         \<and> ((\<forall>r\<in>set recs. unmatched_until r) \<longrightarrow>
              (\<forall>r\<in>set recs. other_form r \<and> re_search_until r = None)
              \<and> event_is_passed ev tmax = Inr False)
         \<and> (\<forall>pre r post. recs = pre @ r # post \<and> re_search_until r = None \<longrightarrow>
              event_is_passed ev tmax
                = event_is_passed (ev\<lparr>ev_recurrence := Some (pre @ post)\<rparr>) tmax)"
proof -
  have a: "(\<forall>r\<in>set recs. re_search_until r = None) \<longleftrightarrow>
            (\<forall>r\<in>set recs. \<not> (\<exists>pre g post. r = pre @ ''UNTIL='' @ g @ post \<and> until_form g))"
    by (simp add: re_search_until_None_iff)
  have b: "event_is_passed ev tmax = Inr False" if "\<forall>r\<in>set recs. re_search_until r = None"
    using assms recurrence_passed_no_match [OF that, of tmax] by (simp add: event_is_passed_def)
  have c: "\<forall>r\<in>set recs. other_form r \<and> re_search_until r = None"
    if "\<forall>r\<in>set recs. unmatched_until r"
    using that unmatched_until_search unmatched_until_other_form by blast
  have d: "event_is_passed ev tmax
             = event_is_passed (ev\<lparr>ev_recurrence := Some (pre @ post)\<rparr>) tmax"
    if "recs = pre @ r # post" "re_search_until r = None" for pre r post
    using assms that recurrence_passed_drop [of r pre post tmax]
    by (simp add: event_is_passed_def)
  from a b c d show ?thesis by blast
qed

text \<open>
  The date-only form, with \<open>time_max\<close> in the year 3000; the series is classified
  the same without its rule.
\<close>

theorem C9_unmatched_until_never_passed_witness:
  "ev_recurrence (series_event [''RRULE:FREQ=WEEKLY;UNTIL=20170317'']) =
     Some [''RRULE:FREQ=WEEKLY;UNTIL=20170317'']
   \<and> unmatched_until ''RRULE:FREQ=WEEKLY;UNTIL=20170317''
   \<and> other_form ''RRULE:FREQ=WEEKLY;UNTIL=20170317''
   \<and> re_search_until ''RRULE:FREQ=WEEKLY;UNTIL=20170317'' = None
   \<and> event_is_passed (series_event [''RRULE:FREQ=WEEKLY;UNTIL=20170317''])
        (mk_datetime 3000 1 1 0 0 0) = Inr False
   \<and> event_is_passed
        ((series_event [''RRULE:FREQ=WEEKLY;UNTIL=20170317''])\<lparr>ev_recurrence := Some []\<rparr>)
        (mk_datetime 3000 1 1 0 0 0) = Inr False"
proof -
  let ?r = "''RRULE:FREQ=WEEKLY;UNTIL=20170317''"
  let ?t = "mk_datetime 3000 1 1 0 0 0"
  have r: "ev_recurrence (series_event [?r]) = Some [?r]"
    by (simp add: series_event_def)
  have s: "unmatched_until ?r"
    by (simp add: unmatched_until_def until_form_def)
  then have h: "\<forall>r\<in>set [?r]. unmatched_until r" by simp
  note t = C9_unmatched_until_never_passed [OF r, of ?t]
  from t h
  have a: "other_form ?r \<and> re_search_until ?r = None
        \<and> event_is_passed (series_event [?r]) ?t = Inr False"
    by simp
  have "[?r] = [] @ ?r # []" by simp
  with t a
  have "event_is_passed (series_event [?r]) ?t
          = event_is_passed ((series_event [?r])\<lparr>ev_recurrence := Some ([] @ [])\<rparr>) ?t"
    by blast
  with a have "event_is_passed ((series_event [?r])\<lparr>ev_recurrence := Some []\<rparr>) ?t = Inr False"
    by simp
  with r s a show ?thesis by simp
qed

text \<open>
  C9 as first stated fails: the UNTIL value \<open>20170317T083000ZZ\<close> has 17 characters
  and is not of the form, but its first 16 characters are, the expression matches
  them, and the series is classified passed for \<open>time_max\<close> = 2017-03-18. So is the
  series whose rule has the date-only value \<open>20170317\<close> followed by the parameter
  \<open>X-UNTIL=20170101T000000Z\<close>, in which the expression matches.
\<close>

theorem C9_counterexample:
  "until_value ''RRULE:FREQ=WEEKLY;UNTIL=20170317T083000ZZ'' = Some ''20170317T083000ZZ''
   \<and> \<not> until_form ''20170317T083000ZZ''
   \<and> other_form ''RRULE:FREQ=WEEKLY;UNTIL=20170317T083000ZZ''
   \<and> re_search_until ''RRULE:FREQ=WEEKLY;UNTIL=20170317T083000ZZ'' = Some ''20170317T083000Z''
   \<and> event_is_passed (series_event [''RRULE:FREQ=WEEKLY;UNTIL=20170317T083000ZZ''])
        (mk_datetime 2017 3 18 0 0 0) = Inr True
   \<and> until_value ''RRULE:FREQ=WEEKLY;UNTIL=20170317;X-UNTIL=20170101T000000Z'' = Some ''20170317''
   \<and> \<not> until_form ''20170317''
   \<and> other_form ''RRULE:FREQ=WEEKLY;UNTIL=20170317;X-UNTIL=20170101T000000Z''
   \<and> re_search_until ''RRULE:FREQ=WEEKLY;UNTIL=20170317;X-UNTIL=20170101T000000Z''
        = Some ''20170101T000000Z''
   \<and> event_is_passed
        (series_event [''RRULE:FREQ=WEEKLY;UNTIL=20170317;X-UNTIL=20170101T000000Z''])
        (mk_datetime 2017 3 18 0 0 0) = Inr True"
proof -
  let ?a = "''RRULE:FREQ=WEEKLY;UNTIL=20170317T083000ZZ''"
  let ?b = "''RRULE:FREQ=WEEKLY;UNTIL=20170317;X-UNTIL=20170101T000000Z''"
  have fa: "\<not> until_form ''20170317T083000ZZ''" and fb: "\<not> until_form ''20170317''"
    by (simp_all add: until_form_def)
  have oa: "other_form ?a" and ob: "other_form ?b"
    using fa fb by (simp_all add: other_form_def until_value_examples)
  have ra: "rule_until ?a = Some (Inr (mk_datetime 2017 3 17 8 30 0))"
    by (simp add: rule_until_def search_longer_value strptime_until_20170317
        del: re_search_until.simps)
  have rb: "rule_until ?b = Some (Inr (mk_datetime 2017 1 1 0 0 0))"
    by (simp add: rule_until_def search_second_until strptime_until_20170101
        del: re_search_until.simps)
  have pa: "event_is_passed (series_event [?a]) (mk_datetime 2017 3 18 0 0 0) = Inr True"
    by (simp add: series_event_def event_is_passed_def recurrence_passed_Cons ra lt_a
        del: recurrence_passed.simps)
  have pb: "event_is_passed (series_event [?b]) (mk_datetime 2017 3 18 0 0 0) = Inr True"
    using lt_d
    by (simp add: series_event_def event_is_passed_def recurrence_passed_Cons rb
        del: recurrence_passed.simps)
  show ?thesis
    by (intro conjI until_value_examples(1) until_value_examples(2) fa fb oa ob pa pb
        search_longer_value search_second_until)
qed

section \<open>The set grows and gives the final count (C10)\<close>

text \<open>
  C10. No step removes an identifier from \<open>deleted_events\<close>: the set before a
  deletion, before the handling of a listed event and before the page loop is contained
  in the set after. When \<open>delete_events\<close> returns normally from the initial state, the
  number reported, \<open>len(deleted_events)\<close>, is the number of status lines with the result
  DELETED, one for each identifier whose attempt ended DELETED, in confirmed and in
  simulation mode.
\<close>

theorem C10_deleted_set_grows:
  "deleted_events st \<subseteq> deleted_events (snd (delete_event svc cfg st ev))
   \<and> deleted_events st \<subseteq> deleted_events (snd (process_event svc cfg st ev))
   \<and> (\<forall>r st'. page_loop n svc cfg st tok = Some (r, st') \<longrightarrow>
         deleted_events st \<subseteq> deleted_events st')
   \<and> (\<forall>st'. delete_events n svc cfg init_state = Some (Inr (), st') \<longrightarrow>
         final_count st' = deleted_lines (stdout st'))"
proof -
  have i: "count_agrees init_state"
    by (simp add: count_agrees_def init_state_def deleted_lines_def)
  have "final_count st' = deleted_lines (stdout st')"
    if "delete_events n svc cfg init_state = Some (Inr (), st')" for st'
    using page_loop_count [OF _ i, of n svc cfg None st'] that
    by (simp add: delete_events_def count_agrees_def final_count_def)
  then show ?thesis
    using delete_event_mono process_event_mono page_loop_mono by blast
qed

text \<open>
  The example in simulation mode: three identifiers, three DELETED lines.
\<close>

theorem C10_deleted_set_grows_witness:
  "(case delete_events 2 (two_page_service (\<lambda>i. None)) (example_config False) init_state of
      Some (Inr u, st') \<Rightarrow> final_count st' = 3 \<and> deleted_lines (stdout st') = 3
    | _ \<Rightarrow> False)"
proof -
  let ?S = "\<lparr>deleted_events = {''E1'', ''R'', ''E2''},
        stdout = [PrintLine (status_line ''DELETED'' (mk_datetime 2017 3 17 8 0 0) e1),
                  PrintLine (status_line ''DELETED'' (mk_datetime 2017 1 6 8 0 0) series_r),
                  PrintLine (status_line ''DELETED'' (mk_datetime 2017 3 17 8 0 0) e2)],
        calls = [ListCall (list_request_of (example_config False) None),
                 ListCall (list_request_of (example_config False) (Some ''T'')),
                 GetCall ''primary'' ''R'']\<rparr>"
  have r: "delete_events 2 (two_page_service (\<lambda>i. None)) (example_config False) init_state
             = Some (Inr (), ?S)"
    by (rule two_page_simulation)
  have l: "deleted_lines (stdout ?S) = 3"
    by (simp add: deleted_lines_def is_deleted_line_simps)
  from C10_deleted_set_grows [of init_state "two_page_service (\<lambda>i. None)"
      "example_config False" e1 2 None] r
  have "final_count ?S = deleted_lines (stdout ?S)" by blast
  with l r show ?thesis by simp
qed

end
